theory Spec2Isabelle
  imports Main "HOL-Library.Word" "HOL-Library.Multiset"
begin

unbundle bit_operations_syntax

section \<open>The hugepage allocator of eRPC: \<^verbatim>\<open>src/util/huge_alloc.cc\<close>\<close>

text \<open>
  The development embeds \<^verbatim>\<open>HugeAlloc\<close> shallowly. \<^verbatim>\<open>size_t\<close> values and
  addresses are 64-bit words, so every addition, subtraction and multiplication wraps
  as it does in the C++ code; \<^verbatim>\<open>int\<close> values that the code computes with are
  32-bit words read in two's complement.

  The allocator talks to three collaborators that are not part of the file: the
  operating system (System V shared memory and \<^verbatim>\<open>mbind\<close>), the random utility
  \<^verbatim>\<open>slow_rand\<close>, and the transport's registration callbacks. Their answers are
  inputs of the model (record \<open>world\<close>); the calls made to them are recorded in
  order, so that a statement such as ``the segment has been removed'' is a statement
  about the recorded calls.
\<close>

subsection \<open>Machine types and compile-time constants\<close>

type_synonym size_t = "64 word"
type_synonym addr = "64 word"
type_synonym c_int = "32 word"

text \<open>
  Modelled from the spec: the macros \<^verbatim>\<open>KB\<close> and \<^verbatim>\<open>MB\<close> are declared outside the
  sources. The spec renders sizes in B, KB and MB units (section 4.3) and counts 8 MiB
  as \<open>64 << 17\<close> bytes, so that a KB is 1024 bytes and a MB is 1024 KB.
\<close>

definition KB :: "size_t \<Rightarrow> size_t" where
  "KB x = x * 1024"

definition MB :: "size_t \<Rightarrow> size_t" where
  "MB x = x * 1024 * 1024"

text \<open>
  Modelled from the spec: the size-class ladder is declared in \<^verbatim>\<open>huge_alloc.h\<close>, which
  is not among the sources. The values are those of the spec's concrete scenarios
  (section 8): \<open>MIN_CLASS_SIZE = 64\<close>, \<open>K = 18\<close>, \<open>MAX_CLASS_SIZE = 8 MiB\<close>, with
  \<open>MAX_CLASS_SIZE = MIN_CLASS_SIZE << (K - 1)\<close> (section 3).
\<close>

definition kMinClassSize :: size_t where
  "kMinClassSize = 64"

definition kNumClasses :: nat where
  "kNumClasses = 18"

definition kMaxClassSize :: size_t where
  "kMaxClassSize = MB 8"

text \<open>
  Modelled from the spec: \<^verbatim>\<open>kHugepageSize\<close>, the rounding unit of region reservations,
  is declared outside the sources. The spec's glossary gives the size of a hugepage as
  2 MiB.
\<close>

definition kHugepageSize :: size_t where
  "kHugepageSize = MB 2"

text \<open>
  Modelled from the spec: \<^verbatim>\<open>round_up<kHugepageSize>(size)\<close> is declared outside the
  sources; the spec says that the size is rounded up to a whole number of hugepages.
  The arithmetic is that of \<^verbatim>\<open>size_t\<close>: the addition wraps.
\<close>

definition round_up :: "size_t \<Rightarrow> size_t \<Rightarrow> size_t" where
  "round_up unit x = (x + (unit - 1)) div unit * unit"

subsection \<open>Data\<close>

text \<open>
  Modelled from the spec: the structs are declared in headers that are not among the
  sources. Their fields are those that the source reads and that its constructor calls
  fill, in the order of the spec's data model (section 3):
  \<^verbatim>\<open>Buffer(buf, class_size, lkey)\<close>, whose second field is the class size in bytes
  (line 169); \<^verbatim>\<open>Transport::MemRegInfo\<close>, an opaque token of the transport that
  exposes \<^verbatim>\<open>lkey\<close> (called \<open>reg_lkey\<close> here, because \<open>lkey\<close> names the buffer's
  field); and \<^verbatim>\<open>shm_region_t(shm_key, buf, size, mem_reg_info)\<close>, whose \<^verbatim>\<open>buf\<close>
  and \<^verbatim>\<open>size\<close> are the fields \<open>region_buf\<close> and \<open>region_size\<close>.
\<close>

record Buffer =
  buf :: addr
  class_size :: size_t
  lkey :: "32 word"

record MemRegInfo =
  transport_mr :: addr
  reg_lkey :: "32 word"

record shm_region_t =
  shm_key :: c_int
  region_buf :: addr
  region_size :: size_t
  mem_reg_info :: MemRegInfo

text \<open>
  Modelled from the spec: the class is declared in \<^verbatim>\<open>huge_alloc.h\<close>. Its members are
  those that the source uses; \<^verbatim>\<open>stats.shm_reserved\<close> and \<^verbatim>\<open>stats.user_alloc_tot\<close>
  are the two counters of the spec's statistics. \<^verbatim>\<open>freelist\<close> is a C array of
  \<^verbatim>\<open>kNumClasses\<close> vectors, modelled as a function from the index. The registration
  callback either throws (\<open>Inl\<close>, carrying the exception) or returns the registration
  token.
\<close>

record HugeAlloc =
  numa_node :: size_t
  reg_mr_func :: "addr \<Rightarrow> size_t \<Rightarrow> string + MemRegInfo"
  dereg_mr_func :: "MemRegInfo \<Rightarrow> unit"
  shm_list :: "shm_region_t list"
  freelist :: "nat \<Rightarrow> Buffer list"
  shm_reserved :: size_t
  user_alloc_tot :: size_t
  prev_allocation_size :: size_t

subsection \<open>The environment\<close>

datatype errno = EEXIST | EACCES | EINVAL | ENOMEM | ENOENT | Errno_other nat

text \<open>\<^verbatim>\<open>shmget\<close> returns \<open>-1\<close> and sets \<^verbatim>\<open>errno\<close>, or returns a segment id.\<close>

datatype shmget_result = Shmget_fail errno | Shmget_id int

text \<open>The calls the allocator makes to the operating system and to the transport.\<close>

datatype ext_call =
    Shmget_create c_int size_t
  | Shmat int
  | Mbind addr size_t "64 word"
  | Memset_zero addr size_t
  | Reg_mr addr size_t
  | Dereg_mr MemRegInfo
  | Shmget_lookup c_int
  | Shmctl_rmid int
  | Shmdt addr

text \<open>One \<^verbatim>\<open>fprintf(stderr, fmt, ...)\<close>: the format string and its arguments. A
  \<^verbatim>\<open>%.2f\<close> argument is kept as the two integers whose quotient is printed.\<close>

datatype printf_arg = Zu size_t | Quot size_t size_t | Dec c_int | Shm_id int | Ptr addr | Str errno

type_synonym printf = "string \<times> printf_arg list"

text \<open>
  \<open>slow_rand\<close> lists the values that successive calls of \<^verbatim>\<open>slow_rand.next_u64()\<close>
  return, \<open>shmget_script\<close> the outcomes of successive creating \<^verbatim>\<open>shmget\<close> calls.
  Both are finite prefixes of what the environment would do: a run that needs more than
  they hold has no result in the model (\<open>None\<close>).
\<close>

record world =
  slow_rand :: "64 word list"
  shmget_script :: "shmget_result list"
  shmat_res :: "int \<Rightarrow> addr"
  mbind_res :: "addr \<Rightarrow> size_t \<Rightarrow> 64 word \<Rightarrow> int"
  shmget_lookup_res :: "c_int \<Rightarrow> shmget_result"
  shmctl_res :: "int \<Rightarrow> int"
  shmdt_res :: "addr \<Rightarrow> int"
  calls :: "ext_call list"
  stderr :: "printf list"

text \<open>
  How a call ends other than by returning: a \<^verbatim>\<open>std::runtime_error\<close> thrown by the
  allocator (the message kept in structured form), the exception of the registration
  callback passing through, a failed \<^verbatim>\<open>assert\<close>, or \<^verbatim>\<open>exit(-1)\<close>.
\<close>

datatype xmsg =
    Insufficient_permissions
  | Shmmax_mismatch size_t
  | Unexpected_shm_error errno
  | Shmat_failed c_int
  | Mbind_failed c_int

datatype failure =
    Runtime_error xmsg
  | Reg_mr_threw string
  | Assert_failed string
  | Exit_called int

type_synonym 'a result = "((failure + 'a) \<times> HugeAlloc \<times> world) option"

subsection \<open>\<^verbatim>\<open>HugeAlloc::alloc_raw\<close>\<close>

text \<open>
  Lines 91--92: \<^verbatim>\<open>shm_key = static_cast<int>(slow_rand.next_u64()); shm_key =
  std::abs(shm_key)\<close>. The cast keeps the low 32 bits. \<^verbatim>\<open>std::abs(INT_MIN)\<close> has no
  defined value in C++; the model takes the two's complement negation, which is what
  the instruction computes (\<open>INT_MIN\<close> again).
\<close>

definition choose_shm_key :: "64 word \<Rightarrow> c_int" where
  "choose_shm_key r = (let shm_key = (ucast r :: c_int) in if shm_key <s 0 then - shm_key else shm_key)"

text \<open>How the \<^verbatim>\<open>while (true)\<close> loop of lines 88--130 is left.\<close>

datatype loop_exit = Got_segment c_int int | Out_of_memory | Thrown xmsg

text \<open>
  One iteration per element of the two scripts. \<^verbatim>\<open>EEXIST\<close> repeats the loop; the
  other values of \<^verbatim>\<open>errno\<close> throw, or return \<^verbatim>\<open>nullptr\<close> for \<^verbatim>\<open>ENOMEM\<close>.
\<close>

fun shmget_loop :: "size_t \<Rightarrow> 64 word list \<Rightarrow> shmget_result list \<Rightarrow> ext_call list
    \<Rightarrow> (loop_exit \<times> 64 word list \<times> shmget_result list \<times> ext_call list) option" where
  "shmget_loop sz (r # rs) (g # gs) cs =
     (let shm_key = choose_shm_key r;
          cs' = cs @ [Shmget_create shm_key sz]
      in case g of
           Shmget_id shm_id \<Rightarrow> Some (Got_segment shm_key shm_id, rs, gs, cs')
         | Shmget_fail e \<Rightarrow>
             (case e of
                EEXIST \<Rightarrow> shmget_loop sz rs gs cs'
              | EACCES \<Rightarrow> Some (Thrown Insufficient_permissions, rs, gs, cs')
              | EINVAL \<Rightarrow> Some (Thrown (Shmmax_mismatch sz), rs, gs, cs')
              | ENOMEM \<Rightarrow> Some (Out_of_memory, rs, gs, cs')
              | _ \<Rightarrow> Some (Thrown (Unexpected_shm_error e), rs, gs, cs')))"
| "shmget_loop sz _ _ cs = None"

text \<open>
  Modelled from the spec: \<^verbatim>\<open>rt_assert(condition, throw_str)\<close> is declared outside the
  sources. The spec (sections 4.1 and 7) makes a failed attach or bind fatal with a
  message; the model records it as a thrown \<^verbatim>\<open>std::runtime_error\<close> with that
  message, and nothing happens when the condition holds.
\<close>

definition rt_assert :: "bool \<Rightarrow> xmsg \<Rightarrow> failure option" where
  "rt_assert condition throw_str = (if condition then None else Some (Runtime_error throw_str))"

text \<open>
  Lines 132--151, after the loop has obtained segment \<open>shm_id\<close> under \<open>key\<close>: attach,
  bind to the NUMA node, zero, register, record the region.
\<close>

definition attach_and_register :: "size_t \<Rightarrow> size_t \<Rightarrow> c_int \<Rightarrow> int \<Rightarrow> HugeAlloc \<Rightarrow> world
    \<Rightarrow> (failure + addr) \<times> HugeAlloc \<times> world" where
  "attach_and_register sz numa key shm_id a w1 =
     (let shm_buf = shmat_res w1 shm_id;
          w2 = w1\<lparr>calls := calls w1 @ [Shmat shm_id]\<rparr>
      in case rt_assert (shm_buf \<noteq> 0) (Shmat_failed key) of
           Some thrown \<Rightarrow> (Inl thrown, a, w2)
         | None \<Rightarrow>
           (let nodemask = push_bit (unat numa) (1 :: 64 word);
                ret = mbind_res w2 shm_buf sz nodemask;
                w3 = w2\<lparr>calls := calls w2 @ [Mbind shm_buf sz nodemask]\<rparr>
            in case rt_assert (ret = 0) (Mbind_failed key) of
                 Some thrown \<Rightarrow> (Inl thrown, a, w3)
               | None \<Rightarrow>
                 (let w4 = w3\<lparr>calls := calls w3 @ [Memset_zero shm_buf sz, Reg_mr shm_buf sz]\<rparr>
                  in case reg_mr_func a shm_buf sz of
                       Inl e \<Rightarrow> (Inl (Reg_mr_threw e), a, w4)
                     | Inr reg_info \<Rightarrow>
                         (Inr shm_buf,
                          a\<lparr>shm_list := shm_list a @
                               [\<lparr>shm_key = key, region_buf = shm_buf,
                                 region_size = sz, mem_reg_info = reg_info\<rparr>],
                            shm_reserved := shm_reserved a + sz\<rparr>,
                          w4))))"

text \<open>
  Lines 83--152. The size is rounded up first; the loop and the rest follow. The
  \<^verbatim>\<open>LOG_WARN\<close> of the \<^verbatim>\<open>ENOMEM\<close> branch belongs to the logging facade and is not
  modelled.
\<close>

definition alloc_raw :: "size_t \<Rightarrow> size_t \<Rightarrow> HugeAlloc \<Rightarrow> world \<Rightarrow> addr result" where
  "alloc_raw sz0 numa a w =
     (let sz = round_up kHugepageSize sz0 in
      case shmget_loop sz (slow_rand w) (shmget_script w) (calls w) of
        None \<Rightarrow> None
      | Some (ex, rs, gs, cs) \<Rightarrow>
          (let w1 = w\<lparr>slow_rand := rs, shmget_script := gs, calls := cs\<rparr> in
           case ex of
             Thrown m \<Rightarrow> Some (Inl (Runtime_error m), a, w1)
           | Out_of_memory \<Rightarrow> Some (Inr 0, a, w1)
           | Got_segment key shm_id \<Rightarrow> Some (attach_and_register sz numa key shm_id a w1)))"

subsection \<open>\<^verbatim>\<open>HugeAlloc::reserve_hugepages\<close>\<close>

text \<open>The loop of lines 165--170, from index \<open>i\<close> to \<open>num_buffers\<close>.\<close>

function add_buffers :: "nat \<Rightarrow> nat \<Rightarrow> addr \<Rightarrow> 32 word \<Rightarrow> Buffer list \<Rightarrow> Buffer list" where
  "add_buffers i num_buffers shm_buf lk fl =
     (if i < num_buffers
      then add_buffers (Suc i) num_buffers shm_buf lk
             (fl @ [\<lparr>buf = shm_buf + of_nat i * kMaxClassSize, class_size = kMaxClassSize, lkey = lk\<rparr>])
      else fl)"
  by pat_completeness auto
termination
  by (relation "measure (\<lambda>(i, n, b, l, fl). n - i)") auto

declare add_buffers.simps [simp del]

text \<open>
  The two \<^verbatim>\<open>assert\<close>s are modelled as checked. \<^verbatim>\<open>shm_list.back()\<close> is read after
  a successful \<^verbatim>\<open>alloc_raw\<close>, which has just appended the region.
\<close>

definition reserve_hugepages :: "size_t \<Rightarrow> size_t \<Rightarrow> HugeAlloc \<Rightarrow> world \<Rightarrow> bool result" where
  "reserve_hugepages sz numa a w =
     (if sz < kMaxClassSize then Some (Inl (Assert_failed ''size >= kMaxClassSize''), a, w)
      else
        case alloc_raw sz numa a w of
          None \<Rightarrow> None
        | Some (Inl e, a1, w1) \<Rightarrow> Some (Inl e, a1, w1)
        | Some (Inr shm_buf, a1, w1) \<Rightarrow>
            if shm_buf = 0 then Some (Inr False, a1, w1)
            else
              (let reg_info = mem_reg_info (last (shm_list a1));
                   num_buffers = sz div kMaxClassSize
               in if num_buffers < 1 then Some (Inl (Assert_failed ''num_buffers >= 1''), a1, w1)
                  else
                    Some (Inr True,
                          a1\<lparr>freelist := (freelist a1)
                                (kNumClasses - 1 :=
                                   add_buffers 0 (unat num_buffers) shm_buf (reg_lkey reg_info)
                                     (freelist a1 (kNumClasses - 1)))\<rparr>,
                          w1)))"

subsection \<open>\<^verbatim>\<open>HugeAlloc::HugeAlloc\<close>\<close>

text \<open>
  \<^verbatim>\<open>kMaxNumaNodes\<close> is declared outside the sources and the spec gives it no value:
  it is a parameter of the constructor's model. The members that the constructor does
  not mention start empty (the statistics at zero, as the spec's first scenario
  requires). The result of \<^verbatim>\<open>reserve_hugepages\<close> is not looked at.
\<close>

definition new_HugeAlloc :: "size_t \<Rightarrow> (addr \<Rightarrow> size_t \<Rightarrow> string + MemRegInfo) \<Rightarrow> (MemRegInfo \<Rightarrow> unit) \<Rightarrow> HugeAlloc" where
  "new_HugeAlloc numa reg dereg =
     \<lparr>numa_node = numa, reg_mr_func = reg, dereg_mr_func = dereg, shm_list = [],
      freelist = (\<lambda>_. []), shm_reserved = 0, user_alloc_tot = 0, prev_allocation_size = 0\<rparr>"

definition HugeAlloc_ctor :: "size_t \<Rightarrow> size_t \<Rightarrow> size_t \<Rightarrow> (addr \<Rightarrow> size_t \<Rightarrow> string + MemRegInfo)
    \<Rightarrow> (MemRegInfo \<Rightarrow> unit) \<Rightarrow> world \<Rightarrow> unit result" where
  "HugeAlloc_ctor kMaxNumaNodes initial_size0 numa reg dereg w =
     (let a = new_HugeAlloc numa reg dereg in
      if \<not> numa \<le> kMaxNumaNodes then Some (Inl (Assert_failed ''numa_node <= kMaxNumaNodes''), a, w)
      else
        (let initial_size = (if initial_size0 < kMaxClassSize then kMaxClassSize else initial_size0);
             a1 = a\<lparr>prev_allocation_size := initial_size\<rparr>
         in case reserve_hugepages initial_size numa a1 w of
              None \<Rightarrow> None
            | Some (Inl e, s) \<Rightarrow> Some (Inl e, s)
            | Some (Inr success, s) \<Rightarrow> Some (Inr (), s)))"

subsection \<open>\<^verbatim>\<open>HugeAlloc::delete_shm\<close> and the destructor\<close>

text \<open>Lines 175--214. Every failure prints a line and calls \<^verbatim>\<open>exit(-1)\<close>.\<close>

definition delete_shm :: "c_int \<Rightarrow> addr \<Rightarrow> world \<Rightarrow> (failure + unit) \<times> world" where
  "delete_shm key shm_buf w =
     (let w1 = w\<lparr>calls := calls w @ [Shmget_lookup key]\<rparr> in
      case shmget_lookup_res w1 key of
        Shmget_fail e \<Rightarrow>
          (Inl (Exit_called (- 1)),
           w1\<lparr>stderr := stderr w1 @
             [case e of
                EACCES \<Rightarrow> (''eRPC HugeAlloc: SHM free error: Insufficient permissions. SHM key = %d.'', [Dec key])
              | ENOENT \<Rightarrow> (''eRPC HugeAlloc: SHM free error: No such SHM key.SHM key = %d.'', [Dec key])
              | _ \<Rightarrow> (''eRPC HugeAlloc: SHM free error: A wild SHM error: %s'', [Str e])]\<rparr>)
      | Shmget_id shmid \<Rightarrow>
          (let w2 = w1\<lparr>calls := calls w1 @ [Shmctl_rmid shmid]\<rparr> in
           if shmctl_res w2 shmid \<noteq> 0
           then (Inl (Exit_called (- 1)),
                 w2\<lparr>stderr := stderr w2 @ [(''eRPC HugeAlloc: Error freeing SHM ID %d'', [Shm_id shmid])]\<rparr>)
           else
             (let w3 = w2\<lparr>calls := calls w2 @ [Shmdt shm_buf]\<rparr> in
              if shmdt_res w3 shm_buf \<noteq> 0
              then (Inl (Exit_called (- 1)),
                    w3\<lparr>stderr := stderr w3 @
                      [(''HugeAlloc: Error freeing SHM buf %p. (SHM key = %d)'', [Ptr shm_buf, Dec key])]\<rparr>)
              else (Inr (), w3))))"

text \<open>Lines 22--28: the loop over \<^verbatim>\<open>shm_list\<close>, deregistering and deleting each region.\<close>

fun destroy_regions :: "shm_region_t list \<Rightarrow> world \<Rightarrow> (failure + unit) \<times> world" where
  "destroy_regions [] w = (Inr (), w)"
| "destroy_regions (shm_region # rest) w =
     (let w1 = w\<lparr>calls := calls w @ [Dereg_mr (mem_reg_info shm_region)]\<rparr> in
      case delete_shm (shm_key shm_region) (region_buf shm_region) w1 of
        (Inl e, w2) \<Rightarrow> (Inl e, w2)
      | (Inr u, w2) \<Rightarrow> destroy_regions rest w2)"

definition HugeAlloc_dtor :: "HugeAlloc \<Rightarrow> world \<Rightarrow> (failure + unit) \<times> world" where
  "HugeAlloc_dtor a w = destroy_regions (shm_list a) w"

subsection \<open>The buddy engine of \<^verbatim>\<open>huge_alloc.h\<close>\<close>

text \<open>
  Modelled from the spec: \<^verbatim>\<open>class_max_size\<close> is defined in \<^verbatim>\<open>huge_alloc.h\<close>, which is
  not among the sources. Section 3 of the spec: class \<open>i\<close> has buffer size
  \<open>MIN_CLASS_SIZE << i\<close>.
\<close>

definition class_max_size :: "nat \<Rightarrow> size_t" where
  "class_max_size i = push_bit i kMinClassSize"

text \<open>
  Modelled from the spec: \<^verbatim>\<open>get_class\<close> is defined in \<^verbatim>\<open>huge_alloc.h\<close>. Section 4.2:
  \<open>get_class(size)\<close> returns the smallest \<open>i\<close> such that class \<open>i\<close>'s size is at
  least \<open>size\<close>. The classes are \<open>0..K-1\<close>; for a size that no class holds the model
  returns \<open>K\<close>, which is the index of no class.
\<close>

definition get_class :: "size_t \<Rightarrow> nat" where
  "get_class sz =
     (case List.find (\<lambda>i. sz \<le> class_max_size i) [0..<kNumClasses] of
        None \<Rightarrow> kNumClasses
      | Some i \<Rightarrow> i)"

text \<open>A handle with a null address denotes allocation failure (section 3 of the spec).\<close>

definition null_buffer :: Buffer where
  "null_buffer = \<lparr>buf = 0, class_size = 0, lkey = 0\<rparr>"

text \<open>
  Modelled from the spec: the split loop of \<^verbatim>\<open>alloc\<close> (\<^verbatim>\<open>huge_alloc.h\<close>). Section 4.2:
  while \<open>j > target\<close>, create two handles \<open>(addr, j-1)\<close> and
  \<open>(addr + class_size(j-1), j-1)\<close>, push the second onto class \<open>j-1\<close>'s free-list,
  keep the first as the current candidate, decrement \<open>j\<close>. Both halves inherit the
  registration key.
\<close>

function split_down :: "nat \<Rightarrow> nat \<Rightarrow> Buffer \<Rightarrow> (nat \<Rightarrow> Buffer list) \<Rightarrow> Buffer \<times> (nat \<Rightarrow> Buffer list)" where
  "split_down target j cand fl =
     (if target < j
      then
        (let half = class_max_size (j - 1);
             first = \<lparr>buf = buf cand, class_size = half, lkey = lkey cand\<rparr>;
             second = \<lparr>buf = buf cand + half, class_size = half, lkey = lkey cand\<rparr>
         in split_down target (j - 1) first (fl(j - 1 := fl (j - 1) @ [second])))
      else (cand, fl))"
  by pat_completeness auto
termination
  by (relation "measure (\<lambda>(target, j, cand, fl). j)") auto

declare split_down.simps [simp del]

text \<open>
  Modelled from the spec: the buddy allocation of \<^verbatim>\<open>alloc\<close>. Section 4.2: search
  upward from \<open>target\<close> for the smallest class \<open>j \<ge> target\<close> whose free-list is
  non-empty; if there is none, the result is a miss (\<open>None\<close>); otherwise pop the last
  handle of class \<open>j\<close>, split down to \<open>target\<close>, return the candidate and increment
  \<open>user_alloc_tot\<close> by \<open>class_size(target)\<close>.
\<close>

definition buddy_alloc :: "nat \<Rightarrow> HugeAlloc \<Rightarrow> (Buffer \<times> HugeAlloc) option" where
  "buddy_alloc target a =
     (case List.find (\<lambda>j. freelist a j \<noteq> []) [target..<kNumClasses] of
        None \<Rightarrow> None
      | Some j \<Rightarrow>
          (let popped = last (freelist a j);
               fl1 = (freelist a)(j := butlast (freelist a j));
               (cand, fl2) = split_down target j popped fl1
           in Some (cand, a\<lparr>freelist := fl2,
                             user_alloc_tot := user_alloc_tot a + class_max_size target\<rparr>)))"

text \<open>
  Modelled from the spec: \<^verbatim>\<open>HugeAlloc::alloc\<close> (\<^verbatim>\<open>huge_alloc.h\<close>). Sections 4.2, 4.3
  and 7: a request of zero or of more than \<open>MAX_CLASS_SIZE\<close> returns a null handle
  without attempting growth; otherwise delegate to the buddy engine; on a miss,
  request growth with size \<open>max(prev_reservation * 2, size)\<close>; if growth returns
  \<open>false\<close>, return a null handle; otherwise the reservation size is persisted and the
  buddy allocation retried.
\<close>

definition alloc :: "size_t \<Rightarrow> HugeAlloc \<Rightarrow> world \<Rightarrow> Buffer result" where
  "alloc sz a w =
     (if sz = 0 \<or> kMaxClassSize < sz then Some (Inr null_buffer, a, w)
      else
        (let target = get_class sz in
         case buddy_alloc target a of
           Some (b, a1) \<Rightarrow> Some (Inr b, a1, w)
         | None \<Rightarrow>
             (let new_size = max (prev_allocation_size a * 2) sz in
              case reserve_hugepages new_size (numa_node a) a w of
                None \<Rightarrow> None
              | Some (Inl e, a1, w1) \<Rightarrow> Some (Inl e, a1, w1)
              | Some (Inr success, a1, w1) \<Rightarrow>
                  if \<not> success then Some (Inr null_buffer, a1, w1)
                  else
                    (case buddy_alloc target (a1\<lparr>prev_allocation_size := new_size\<rparr>) of
                       Some (b, a2) \<Rightarrow> Some (Inr b, a2, w1)
                     | None \<Rightarrow> Some (Inr null_buffer, a1\<lparr>prev_allocation_size := new_size\<rparr>, w1)))))"

text \<open>
  Modelled from the spec: \<^verbatim>\<open>HugeAlloc::free_buf\<close> (\<^verbatim>\<open>huge_alloc.h\<close>). Section 4.2:
  push the handle onto the free-list for its class; decrement \<open>user_alloc_tot\<close> by the
  class size. No coalescing.
\<close>

definition free_buf :: "Buffer \<Rightarrow> HugeAlloc \<Rightarrow> HugeAlloc" where
  "free_buf b a =
     (let size_class = get_class (class_size b) in
      a\<lparr>freelist := (freelist a)(size_class := freelist a size_class @ [b]),
        user_alloc_tot := user_alloc_tot a - class_max_size size_class\<rparr>)"

subsection \<open>\<^verbatim>\<open>HugeAlloc::create_cache\<close>\<close>

text \<open>
  Lines 39--44: the allocation loop, from index \<open>i\<close>. It returns \<^verbatim>\<open>false\<close> at the
  first null buffer, with the buffers allocated so far in \<^verbatim>\<open>free_buffer_vec\<close>.
\<close>

function cache_alloc_loop :: "nat \<Rightarrow> nat \<Rightarrow> size_t \<Rightarrow> Buffer list \<Rightarrow> HugeAlloc \<Rightarrow> world
    \<Rightarrow> (bool \<times> Buffer list) result" where
  "cache_alloc_loop i reqd_buffers sz free_buffer_vec a w =
     (if i < reqd_buffers
      then
        (case alloc sz a w of
           None \<Rightarrow> None
         | Some (Inl e, a1, w1) \<Rightarrow> Some (Inl e, a1, w1)
         | Some (Inr buffer, a1, w1) \<Rightarrow>
             if buf buffer = 0 then Some (Inr (False, free_buffer_vec), a1, w1)
             else cache_alloc_loop (Suc i) reqd_buffers sz (free_buffer_vec @ [buffer]) a1 w1)
      else Some (Inr (True, free_buffer_vec), a, w))"
  by pat_completeness auto
termination
  by (relation "measure (\<lambda>(i, n, sz, v, a, w). n - i)") auto

declare cache_alloc_loop.simps [simp del]

text \<open>Lines 46--48: the loop that frees \<^verbatim>\<open>free_buffer_vec[i]\<close>, from index \<open>i\<close>.\<close>

function cache_free_loop :: "nat \<Rightarrow> nat \<Rightarrow> Buffer list \<Rightarrow> HugeAlloc \<Rightarrow> HugeAlloc" where
  "cache_free_loop i reqd_buffers free_buffer_vec a =
     (if i < reqd_buffers
      then cache_free_loop (Suc i) reqd_buffers free_buffer_vec (free_buf (free_buffer_vec ! i) a)
      else a)"
  by pat_completeness auto
termination
  by (relation "measure (\<lambda>(i, n, v, a). n - i)") auto

declare cache_free_loop.simps [simp del]

text \<open>
  Lines 32--51. \<^verbatim>\<open>reqd_buffers\<close> is a \<^verbatim>\<open>size_t\<close>: the subtraction wraps, and
  \<^verbatim>\<open>reqd_buffers <= 0\<close> compares unsigned values.
\<close>

definition create_cache :: "size_t \<Rightarrow> size_t \<Rightarrow> HugeAlloc \<Rightarrow> world \<Rightarrow> bool result" where
  "create_cache sz num_buffers a w =
     (let size_class = get_class sz;
          reqd_buffers = num_buffers - of_nat (length (freelist a size_class))
      in if reqd_buffers \<le> 0 then Some (Inr True, a, w)
         else
           (case cache_alloc_loop 0 (unat reqd_buffers) sz [] a w of
              None \<Rightarrow> None
            | Some (Inl e, a1, w1) \<Rightarrow> Some (Inl e, a1, w1)
            | Some (Inr (all_allocated, free_buffer_vec), a1, w1) \<Rightarrow>
                if \<not> all_allocated then Some (Inr False, a1, w1)
                else Some (Inr True, cache_free_loop 0 (unat reqd_buffers) free_buffer_vec a1, w1)))"

subsection \<open>\<^verbatim>\<open>HugeAlloc::print_stats\<close>\<close>

text \<open>
  Lines 53--81, one element per \<^verbatim>\<open>fprintf\<close>. The format strings are kept without their
  tab and newline characters.
\<close>

definition region_line :: "nat \<Rightarrow> shm_region_t \<Rightarrow> printf" where
  "region_line shm_region_index shm_region =
     (''Region %zu, size %zu MB'', [Zu (of_nat shm_region_index), Zu (region_size shm_region div MB 1)])"

definition class_line :: "HugeAlloc \<Rightarrow> nat \<Rightarrow> printf" where
  "class_line a i =
     (let cls = class_max_size i;
          n = Zu (of_nat (length (freelist a i)))
      in if cls < KB 1 then (''%zu B: %zu Buffers'', [Zu cls, n])
         else if cls < MB 1 then (''%zu KB: %zu Buffers'', [Zu (cls div KB 1), n])
         else (''%zu MB: %zu Buffers'', [Zu (cls div MB 1), n]))"

definition stats_lines :: "HugeAlloc \<Rightarrow> printf list" where
  "stats_lines a =
     [(''eRPC HugeAlloc stats:'', []),
      (''Total reserved SHM = %zu bytes (%.2f MB)'', [Zu (shm_reserved a), Quot (shm_reserved a) (MB 1)]),
      (''Total memory allocated to user = %zu bytes (%.2f MB)'',
         [Zu (user_alloc_tot a), Quot (user_alloc_tot a) (MB 1)]),
      (''%zu SHM regions'', [Zu (of_nat (length (shm_list a)))])]
     @ map (\<lambda>(shm_region_index, shm_region). region_line shm_region_index shm_region)
         (enumerate 0 (shm_list a))
     @ [(''Size classes:'', [])]
     @ map (class_line a) [0..<kNumClasses]"

definition print_stats :: "HugeAlloc \<Rightarrow> world \<Rightarrow> HugeAlloc \<times> world" where
  "print_stats a w = (a, w\<lparr>stderr := stderr w @ stats_lines a\<rparr>)"

subsection \<open>The allocator's operations and its reachable states\<close>

text \<open>
  The public operations, and what a call returns. A state is reachable for a configured
  initial size when the constructor produced it, or an operation produced it from a
  reachable state, whatever the environment did and however the call ended.
\<close>

datatype op = Alloc size_t | Free_buf Buffer | Create_cache size_t size_t | Print_stats

datatype ret = Ret_buffer Buffer | Ret_bool bool | Ret_unit

definition returning :: "('a \<Rightarrow> 'b) \<Rightarrow> 'a result \<Rightarrow> 'b result" where
  "returning f r =
     (case r of
        None \<Rightarrow> None
      | Some (Inl e, s) \<Rightarrow> Some (Inl e, s)
      | Some (Inr x, s) \<Rightarrow> Some (Inr (f x), s))"

fun run_op :: "op \<Rightarrow> HugeAlloc \<Rightarrow> world \<Rightarrow> ret result" where
  "run_op (Alloc sz) a w = returning Ret_buffer (alloc sz a w)"
| "run_op (Free_buf b) a w = Some (Inr Ret_unit, free_buf b a, w)"
| "run_op (Create_cache sz n) a w = returning Ret_bool (create_cache sz n a w)"
| "run_op Print_stats a w = Some (Inr Ret_unit, print_stats a w)"

inductive reachable :: "size_t \<Rightarrow> HugeAlloc \<Rightarrow> bool" for initial_size :: size_t where
  constructed:
    "HugeAlloc_ctor kMaxNumaNodes initial_size numa reg dereg w = Some (Inr (), a, w')
     \<Longrightarrow> reachable initial_size a"
| operated:
    "reachable initial_size a \<Longrightarrow> run_op opn a w = Some (x, a', w')
     \<Longrightarrow> reachable initial_size a'"

text \<open>The calls that detach a segment or mark it for removal.\<close>

fun is_cleanup_call :: "ext_call \<Rightarrow> bool" where
  "is_cleanup_call (Shmctl_rmid shm_id) = True"
| "is_cleanup_call (Shmdt b) = True"
| "is_cleanup_call c = False"

subsection \<open>Concrete environments\<close>

text \<open>
  A registration callback that succeeds with key 7 and one that throws; an operating
  system that attaches segment \<open>i\<close> at \<open>i * 2^30\<close> and lets \<^verbatim>\<open>mbind\<close>,
  \<^verbatim>\<open>shmctl\<close> and \<^verbatim>\<open>shmdt\<close> succeed, with the given random values and \<^verbatim>\<open>shmget\<close>
  outcomes.
\<close>

definition reg_ok :: "addr \<Rightarrow> size_t \<Rightarrow> string + MemRegInfo" where
  "reg_ok b n = Inr \<lparr>transport_mr = b, reg_lkey = 7\<rparr>"

definition reg_fail :: "addr \<Rightarrow> size_t \<Rightarrow> string + MemRegInfo" where
  "reg_fail b n = Inl ''registration failed''"

definition dereg_nop :: "MemRegInfo \<Rightarrow> unit" where
  "dereg_nop m = ()"

definition os_world :: "64 word list \<Rightarrow> shmget_result list \<Rightarrow> world" where
  "os_world rs gs =
     \<lparr>slow_rand = rs, shmget_script = gs,
      shmat_res = (\<lambda>shm_id. word_of_int shm_id * 0x40000000),
      mbind_res = (\<lambda>b n m. 0),
      shmget_lookup_res = (\<lambda>k. Shmget_id (sint k)),
      shmctl_res = (\<lambda>i. 0), shmdt_res = (\<lambda>b. 0),
      calls = [], stderr = []\<rparr>"

text \<open>Running an operation on the state that an earlier call left.\<close>

definition then_op :: "'a result \<Rightarrow> (HugeAlloc \<Rightarrow> world \<Rightarrow> 'b result) \<Rightarrow> 'b result" where
  "then_op r f = (case r of None \<Rightarrow> None | Some (x, a, w) \<Rightarrow> f a w)"

text \<open>What is looked at in the outcome of a call: the value or failure, the free-lists
  of the classes in order, the region list, the counters, the persisted reservation
  size and the calls made.\<close>

definition observe :: "'a result \<Rightarrow> ((failure + 'a) \<times> Buffer list list \<times> shm_region_t list
    \<times> size_t \<times> size_t \<times> size_t \<times> ext_call list) option" where
  "observe r =
     (case r of
        None \<Rightarrow> None
      | Some (x, a, w) \<Rightarrow>
          Some (x, map (freelist a) [0..<kNumClasses], shm_list a, shm_reserved a,
                user_alloc_tot a, prev_allocation_size a, calls w))"

subsection \<open>Predicates on allocator states\<close>

text \<open>
  \<open>grows_by a a' new\<close>: from \<open>a\<close> to \<open>a'\<close> the regions \<open>new\<close> were appended to the
  region list and their sizes added to \<open>shm_reserved\<close> (in \<^verbatim>\<open>size_t\<close> arithmetic).
  \<open>regions_multiple unit a\<close>: the byte size of every region of \<open>a\<close> is a multiple of
  \<open>unit\<close>.
\<close>

definition grows_by :: "HugeAlloc \<Rightarrow> HugeAlloc \<Rightarrow> shm_region_t list \<Rightarrow> bool" where
  "grows_by a a' new \<longleftrightarrow>
     shm_list a' = shm_list a @ new \<and>
     shm_reserved a' = shm_reserved a + sum_list (map region_size new)"

definition regions_multiple :: "size_t \<Rightarrow> HugeAlloc \<Rightarrow> bool" where
  "regions_multiple unit a = list_all (\<lambda>r. region_size r mod unit = 0) (shm_list a)"

text \<open>
  The allocator after construction with 9 MiB, and with 16 MiB, under the registration
  callback \<open>reg_ok\<close>, the first random value being 5 and the segment attached at
  \<open>2^30\<close>.
\<close>

definition region9 :: shm_region_t where
  "region9 = \<lparr>shm_key = 5, region_buf = 1073741824, region_size = 10485760,
              mem_reg_info = \<lparr>transport_mr = 1073741824, reg_lkey = 7\<rparr>\<rparr>"

definition alloc9 :: HugeAlloc where
  "alloc9 = \<lparr>numa_node = 0, reg_mr_func = reg_ok, dereg_mr_func = dereg_nop,
             shm_list = [region9],
             freelist = (\<lambda>_. [])(17 := [\<lparr>buf = 1073741824, class_size = 8388608, lkey = 7\<rparr>]),
             shm_reserved = 10485760, user_alloc_tot = 0, prev_allocation_size = 9437184\<rparr>"

definition region16 :: shm_region_t where
  "region16 = \<lparr>shm_key = 5, region_buf = 1073741824, region_size = 16777216,
               mem_reg_info = \<lparr>transport_mr = 1073741824, reg_lkey = 7\<rparr>\<rparr>"

definition alloc16 :: HugeAlloc where
  "alloc16 = \<lparr>numa_node = 0, reg_mr_func = reg_ok, dereg_mr_func = dereg_nop,
              shm_list = [region16],
              freelist = (\<lambda>_. [])(17 := [\<lparr>buf = 1073741824, class_size = 8388608, lkey = 7\<rparr>,
                                          \<lparr>buf = 1082130432, class_size = 8388608, lkey = 7\<rparr>]),
              shm_reserved = 16777216, user_alloc_tot = 0, prev_allocation_size = 16777216\<rparr>"

subsection \<open>Well-formed free-lists\<close>

text \<open>
  The invariants of the data model (section 3 of the spec), over the bytes that buffers
  and regions occupy: a buffer occupies the addresses from \<open>buf\<close> up to \<open>buf_end\<close>.
  Two buffers are disjoint when one ends before the other begins; a multiset of buffers
  is pairwise disjoint when any two of its members, counted with multiplicity, are.
\<close>

definition buf_end :: "Buffer \<Rightarrow> nat" where
  "buf_end b = unat (buf b) + unat (class_size b)"

definition disjoint_bufs :: "Buffer \<Rightarrow> Buffer \<Rightarrow> bool" where
  "disjoint_bufs b c \<longleftrightarrow>
     unat (buf b) + unat (class_size b) \<le> unat (buf c) \<or>
     unat (buf c) + unat (class_size c) \<le> unat (buf b)"

definition pw_disjoint :: "Buffer multiset \<Rightarrow> bool" where
  "pw_disjoint M \<longleftrightarrow> (\<forall>b c. b \<in># M \<longrightarrow> c \<in># M - {#b#} \<longrightarrow> disjoint_bufs b c)"

text \<open>All buffers on the free-lists of the classes \<open>0..K-1\<close>.\<close>

definition free_mset :: "(nat \<Rightarrow> Buffer list) \<Rightarrow> Buffer multiset" where
  "free_mset fl = (\<Sum>i<kNumClasses. mset (fl i))"

text \<open>Every buffer on the free-list of class \<open>i\<close> has the size of class \<open>i\<close>.\<close>

definition classes_ok :: "(nat \<Rightarrow> Buffer list) \<Rightarrow> bool" where
  "classes_ok fl \<longleftrightarrow> (\<forall>i<kNumClasses. \<forall>b\<in>set (fl i). class_size b = class_max_size i)"

text \<open>A non-empty buffer that lies in the address range from \<open>lo\<close> to \<open>hi\<close>, and in
  a region.\<close>

definition inside :: "Buffer \<Rightarrow> nat \<Rightarrow> nat \<Rightarrow> bool" where
  "inside b lo hi \<longleftrightarrow> class_size b \<noteq> 0 \<and> lo \<le> unat (buf b) \<and> buf_end b \<le> hi"

definition within :: "Buffer \<Rightarrow> shm_region_t \<Rightarrow> bool" where
  "within b r = inside b (unat (region_buf r)) (unat (region_buf r) + unat (region_size r))"

text \<open>
  What the operating system gives: a region is attached at a non-null address, is not
  empty and ends within the 64-bit address space; any two regions of the list (at
  different positions) are apart.
\<close>

definition region_wf :: "shm_region_t \<Rightarrow> bool" where
  "region_wf r \<longleftrightarrow>
     0 < unat (region_buf r) \<and> region_size r \<noteq> 0 \<and>
     unat (region_buf r) + unat (region_size r) \<le> 2 ^ 64"

definition regions_apart :: "shm_region_t \<Rightarrow> shm_region_t \<Rightarrow> bool" where
  "regions_apart r s \<longleftrightarrow>
     unat (region_buf r) + unat (region_size r) \<le> unat (region_buf s) \<or>
     unat (region_buf s) + unat (region_size s) \<le> unat (region_buf r)"

definition regions_ok :: "shm_region_t list \<Rightarrow> bool" where
  "regions_ok rs \<longleftrightarrow> list_all region_wf rs \<and> sorted_wrt regions_apart rs"

text \<open>
  The free-lists \<open>fl\<close>, together with the buffers \<open>out\<close> that callers hold, are
  well-formed over the regions \<open>rs\<close>: class sizes are right, every buffer lies in a
  region, and no two buffers overlap.
\<close>

definition buffers_wf :: "shm_region_t list \<Rightarrow> (nat \<Rightarrow> Buffer list) \<Rightarrow> Buffer multiset \<Rightarrow> bool" where
  "buffers_wf rs fl out \<longleftrightarrow>
     classes_ok fl \<and>
     (\<forall>b. b \<in># free_mset fl + out \<longrightarrow> (\<exists>r\<in>set rs. within b r)) \<and>
     pw_disjoint (free_mset fl + out)"

section \<open>Properties\<close>

subsection \<open>Evaluation of the constants\<close>

lemma upt_kNumClasses:
  "[0..<kNumClasses] = [0, 1, 2, 3, 4, 5, 6, 7, 8, 9, 10, 11, 12, 13, 14, 15, 16, 17]"
  by (simp add: kNumClasses_def upt_rec)

lemma choose_shm_key_5: "choose_shm_key 5 = 5"
  by (simp add: choose_shm_key_def word_sless_alt)

lemma round_up_8MB: "round_up kHugepageSize 8388608 = 8388608"
  by (simp add: round_up_def kHugepageSize_def MB_def)

lemma choose_shm_key_6: "choose_shm_key 6 = 6"
  by (simp add: choose_shm_key_def word_sless_alt)

lemmas eval_defs =
  observe_def then_op_def HugeAlloc_ctor_def reserve_hugepages_def alloc_raw_def
  attach_and_register_def rt_assert_def new_HugeAlloc_def os_world_def reg_ok_def reg_fail_def
  kMaxClassSize_def kHugepageSize_def round_up_def choose_shm_key_5 choose_shm_key_6
  kNumClasses_def upt_rec MB_def Let_def add_buffers.simps

subsection \<open>Rounding to hugepages\<close>

lemma unat_kMax: "unat kMaxClassSize = 8388608"
  by (simp add: kMaxClassSize_def MB_def)

lemma unat_kHuge: "unat kHugepageSize = 2097152"
  by (simp add: kHugepageSize_def MB_def)

lemma div_mult_le_unat: "unat (sz div kMaxClassSize) * unat kMaxClassSize \<le> unat (sz :: size_t)"
  by (simp add: unat_div)

lemma unat_round_up:
  "unat (round_up kHugepageSize x) = ((unat x + 2097151) mod 2 ^ 64) div 2097152 * 2097152"
proof -
  have a: "unat (x + (kHugepageSize - 1)) = (unat x + 2097151) mod 2 ^ 64"
    by (simp add: unat_word_ariths kHugepageSize_def MB_def)
  have "unat ((x + (kHugepageSize - 1)) div kHugepageSize * kHugepageSize)
      = unat ((x + (kHugepageSize - 1)) div kHugepageSize) * unat kHugepageSize"
  proof -
    have "unat ((x + (kHugepageSize - 1)) div kHugepageSize) * unat kHugepageSize \<le> unat (x + (kHugepageSize - 1))"
      by (simp add: unat_div)
    also have "\<dots> < 2 ^ 64"
      using unsigned_less [of "x + (kHugepageSize - 1)", where 'a = nat] by simp
    finally show ?thesis
      by (simp add: unat_mult_lem [THEN iffD1])
  qed
  then show ?thesis
    by (simp add: round_up_def unat_div a unat_kHuge)
qed

lemma round_up_multiple: "round_up kHugepageSize x mod kHugepageSize = 0"
proof -
  have "unat (round_up kHugepageSize x mod kHugepageSize) = 0"
    by (simp add: unat_mod unat_round_up unat_kHuge)
  then show ?thesis by (simp add: unat_eq_0)
qed

lemma round_up_ge:
  assumes "unat x + unat kHugepageSize \<le> 2 ^ 64"
  shows "unat x \<le> unat (round_up kHugepageSize x)"
proof -
  from assms have "unat x + 2097151 < 2 ^ 64" by (simp add: unat_kHuge)
  then have "(unat x + 2097151) mod 2 ^ 64 = unat x + 2097151" by simp
  then show ?thesis
    by (simp add: unat_round_up)
qed


lemma round_up_of_multiple:
  assumes "unat x mod unat kMaxClassSize = 0"
  shows "round_up kHugepageSize x = x"
proof -
  from assms have "8388608 dvd unat x"
    by (simp add: unat_kMax mod_0_imp_dvd)
  then obtain k where k: "unat x = 8388608 * k" by (rule dvdE)
  have "unat x < 2 ^ 64"
    using unsigned_less [of x, where 'a = nat] by simp
  with k have "8388608 * k < 8388608 * 2199023255552" by simp
  then have "k < 2199023255552" by simp
  with k have "unat x + 2097151 < 2 ^ 64" by simp
  then have "(unat x + 2097151) mod 2 ^ 64 = unat x + 2097151" by simp
  moreover have "(unat x + 2097151) div 2097152 * 2097152 = unat x"
  proof -
    have "unat x + 2097151 = 2097151 + (4 * k) * 2097152" using k by simp
    then have "(unat x + 2097151) div 2097152 = 4 * k"
      by (simp only: div_mult_self1)
    with k show ?thesis by simp
  qed
  ultimately have "unat (round_up kHugepageSize x) = unat x"
    by (simp add: unat_round_up)
  then show ?thesis by (simp add: word_unat_eq_iff)
qed

lemma div_mult_of_multiple:
  assumes "unat x mod unat kMaxClassSize = 0"
  shows "x div kMaxClassSize * kMaxClassSize = x"
proof -
  have "unat (x div kMaxClassSize) * unat kMaxClassSize \<le> unat x"
    by (rule div_mult_le_unat)
  also have "\<dots> < 2 ^ 64"
    using unsigned_less [of x, where 'a = nat] by simp
  finally have "unat (x div kMaxClassSize * kMaxClassSize) = unat (x div kMaxClassSize) * unat kMaxClassSize"
    by (simp add: unat_mult_lem [THEN iffD1])
  also have "\<dots> = unat x"
    using assms by (simp add: unat_div mod_0_imp_dvd)
  finally show ?thesis by (simp add: word_unat_eq_iff)
qed

subsection \<open>The \<^verbatim>\<open>shmget\<close> loop\<close>

text \<open>When the loop is left, it has consumed as many random values as \<^verbatim>\<open>shmget\<close>
  outcomes, and has made one creating \<^verbatim>\<open>shmget\<close> call for each.\<close>

lemma shmget_loop_calls:
  "shmget_loop sz rs gs cs = Some (ex, rs', gs', cs') \<Longrightarrow>
   \<exists>n. cs' = cs @ map (\<lambda>r. Shmget_create (choose_shm_key r) sz) (take n rs)
       \<and> rs' = drop n rs \<and> gs' = drop n gs"
proof (induction sz rs gs cs rule: shmget_loop.induct)
  case (1 sz r rs g gs cs)
  show ?case
  proof (cases "g = Shmget_fail EEXIST")
    case True
    from "1.prems" True
    have step: "shmget_loop sz rs gs (cs @ [Shmget_create (choose_shm_key r) sz]) = Some (ex, rs', gs', cs')"
      by (simp add: Let_def)
    from "1.IH" [OF refl refl True refl step] obtain n where
      "cs' = (cs @ [Shmget_create (choose_shm_key r) sz])
               @ map (\<lambda>r. Shmget_create (choose_shm_key r) sz) (take n rs)
       \<and> rs' = drop n rs \<and> gs' = drop n gs"
      by blast
    then have "cs' = cs @ map (\<lambda>r. Shmget_create (choose_shm_key r) sz) (take (Suc n) (r # rs))
       \<and> rs' = drop (Suc n) (r # rs) \<and> gs' = drop (Suc n) (g # gs)"
      by simp
    then show ?thesis by blast
  next
    case False
    with "1.prems"
    have "cs' = cs @ map (\<lambda>r. Shmget_create (choose_shm_key r) sz) (take (Suc 0) (r # rs))
       \<and> rs' = drop (Suc 0) (r # rs) \<and> gs' = drop (Suc 0) (g # gs)"
      by (auto simp: Let_def split: shmget_result.splits errno.splits)
    then show ?thesis by blast
  qed
qed simp_all

lemma shmget_loop_cleanup:
  "shmget_loop sz rs gs cs = Some (ex, rs', gs', cs') \<Longrightarrow>
   filter is_cleanup_call cs' = filter is_cleanup_call cs"
  by (drule shmget_loop_calls) (auto simp: filter_map comp_def)

lemma shmget_loop_ENOMEM:
  "k < length rs \<Longrightarrow>
   shmget_loop sz rs (replicate k (Shmget_fail EEXIST) @ Shmget_fail ENOMEM # gs) cs =
     Some (Out_of_memory, drop (Suc k) rs, gs,
           cs @ map (\<lambda>r. Shmget_create (choose_shm_key r) sz) (take (Suc k) rs))"
proof (induction k arbitrary: rs cs)
  case 0
  then obtain r rs0 where "rs = r # rs0" by (cases rs) auto
  then show ?case by simp
next
  case (Suc k)
  then obtain r rs0 where rs: "rs = r # rs0" by (cases rs) auto
  with Suc.prems have "k < length rs0" by simp
  from Suc.IH [OF this] rs show ?case by simp
qed

lemma alloc_raw_ENOMEM:
  assumes "shmget_script w = replicate k (Shmget_fail EEXIST) @ Shmget_fail ENOMEM # gs"
    and "k < length (slow_rand w)"
  shows "alloc_raw sz numa a w =
     Some (Inr 0, a,
           w\<lparr>slow_rand := drop (Suc k) (slow_rand w), shmget_script := gs,
             calls := calls w @ map (\<lambda>r. Shmget_create (choose_shm_key r) (round_up kHugepageSize sz))
                                  (take (Suc k) (slow_rand w))\<rparr>)"
  using shmget_loop_ENOMEM [OF assms(2), of "round_up kHugepageSize sz" gs "calls w"] assms(1)
  by (simp add: alloc_raw_def)

subsection \<open>What a reservation changes\<close>

lemma add_buffers_eq:
  "add_buffers i n shm_buf lk fl =
     fl @ map (\<lambda>j. \<lparr>buf = shm_buf + of_nat j * kMaxClassSize, class_size = kMaxClassSize, lkey = lk\<rparr>) [i..<n]"
proof (induction i n shm_buf lk fl rule: add_buffers.induct)
  case (1 i n shm_buf lk fl)
  show ?case
  proof (cases "i < n")
    case True
    with "1.IH" show ?thesis
      by (subst add_buffers.simps) (simp add: upt_conv_Cons)
  next
    case False
    then show ?thesis
      by (subst add_buffers.simps) simp
  qed
qed

lemma attach_and_register_cases:
  assumes "attach_and_register sz numa key shm_id a w = (x, a', w')"
  obtains (unchanged) e where "a' = a" and "x = Inl e"
  | (reserved) info where "x = Inr (shmat_res w shm_id)" and "shmat_res w shm_id \<noteq> 0"
      and "reg_mr_func a (shmat_res w shm_id) sz = Inr info"
      and "a' = a\<lparr>shm_list := shm_list a @
                          [\<lparr>shm_key = key, region_buf = shmat_res w shm_id,
                            region_size = sz, mem_reg_info = info\<rparr>],
                     shm_reserved := shm_reserved a + sz\<rparr>"
proof (cases "shmat_res w shm_id = 0")
  case True
  with assms show ?thesis
    by (intro that(1)) (auto simp: attach_and_register_def rt_assert_def Let_def)
next
  case nz: False
  show ?thesis
  proof (cases "mbind_res w (shmat_res w shm_id) sz (push_bit (unat numa) 1) = 0")
    case False
    with assms nz show ?thesis
      by (intro that(1)) (auto simp: attach_and_register_def rt_assert_def Let_def)
  next
    case True
    show ?thesis
    proof (cases "reg_mr_func a (shmat_res w shm_id) sz")
      case (Inl e)
      with assms nz True show ?thesis
        by (intro that(1)) (auto simp: attach_and_register_def rt_assert_def Let_def)
    next
      case (Inr info)
      with assms nz True show ?thesis
        by (intro that(2) [of info]) (auto simp: attach_and_register_def rt_assert_def Let_def)
    qed
  qed
qed


lemma alloc_raw_cases:
  assumes "alloc_raw sz numa a w = Some (x, a', w')"
  obtains (unchanged) "a' = a" and "x = Inr 0 \<or> (\<exists>e. x = Inl e)"
  | (reserved) key p info where "x = Inr p" and "p \<noteq> 0"
      and "reg_mr_func a p (round_up kHugepageSize sz) = Inr info"
      and "a' = a\<lparr>shm_list := shm_list a @
                          [\<lparr>shm_key = key, region_buf = p,
                            region_size = round_up kHugepageSize sz, mem_reg_info = info\<rparr>],
                     shm_reserved := shm_reserved a + round_up kHugepageSize sz\<rparr>"
proof -
  from assms obtain ex rs gs cs where
    l: "shmget_loop (round_up kHugepageSize sz) (slow_rand w) (shmget_script w) (calls w) = Some (ex, rs, gs, cs)"
    by (cases "shmget_loop (round_up kHugepageSize sz) (slow_rand w) (shmget_script w) (calls w)")
       (auto simp: alloc_raw_def)
  show ?thesis
  proof (cases ex)
    case (Got_segment key shm_id)
    with assms l have
      "attach_and_register (round_up kHugepageSize sz) numa key shm_id a
         (w\<lparr>slow_rand := rs, shmget_script := gs, calls := cs\<rparr>) = (x, a', w')"
      by (simp add: alloc_raw_def)
    then show ?thesis
    proof (cases rule: attach_and_register_cases)
      case (unchanged e)
      then show ?thesis by (intro that(1)) auto
    next
      case (reserved info)
      then show ?thesis by (intro that(2)) auto
    qed
  next
    case Out_of_memory
    with assms l show ?thesis by (intro that(1)) (auto simp: alloc_raw_def)
  next
    case (Thrown m)
    with assms l show ?thesis by (intro that(1)) (auto simp: alloc_raw_def)
  qed
qed

lemma reserve_hugepages_cases:
  assumes "reserve_hugepages sz numa a w = Some (x, a', w')"
  obtains (unchanged) "a' = a" and "x \<noteq> Inr True"
  | (aborted) key p info where "x \<noteq> Inr True"
      and "a' = a\<lparr>shm_list := shm_list a @
                          [\<lparr>shm_key = key, region_buf = p,
                            region_size = round_up kHugepageSize sz, mem_reg_info = info\<rparr>],
                     shm_reserved := shm_reserved a + round_up kHugepageSize sz\<rparr>"
  | (reserved) key p info where "x = Inr True" and "p \<noteq> 0" and "kMaxClassSize \<le> sz"
      and "reg_mr_func a p (round_up kHugepageSize sz) = Inr info"
      and "a' = a\<lparr>shm_list := shm_list a @
                          [\<lparr>shm_key = key, region_buf = p,
                            region_size = round_up kHugepageSize sz, mem_reg_info = info\<rparr>],
                     shm_reserved := shm_reserved a + round_up kHugepageSize sz,
                     freelist := (freelist a)
                          (kNumClasses - 1 := freelist a (kNumClasses - 1) @
                             map (\<lambda>i. \<lparr>buf = p + of_nat i * kMaxClassSize, class_size = kMaxClassSize,
                                        lkey = reg_lkey info\<rparr>)
                               [0..<unat (sz div kMaxClassSize)])\<rparr>"
proof (cases "sz < kMaxClassSize")
  case True
  with assms unchanged show ?thesis by (auto simp: reserve_hugepages_def)
next
  case False
  show ?thesis
  proof (cases "alloc_raw sz numa a w")
    case None
    with assms False show ?thesis by (simp add: reserve_hugepages_def)
  next
    case (Some r)
    obtain y a1 w1 where r: "r = (y, a1, w1)" by (cases r)
    from Some r have ar: "alloc_raw sz numa a w = Some (y, a1, w1)" by simp
    from ar show ?thesis
    proof (cases rule: alloc_raw_cases)
      case unchanged
      with assms False ar show ?thesis
        by (intro that(1)) (auto simp: reserve_hugepages_def)
    next
      case (reserved key p info)
      show ?thesis
      proof (cases "sz div kMaxClassSize < 1")
        case True
        with assms False ar reserved show ?thesis
          by (intro that(2)) (auto simp: reserve_hugepages_def Let_def)
      next
        case nz: False
        with assms False ar reserved show ?thesis
          by (intro that(3)) (auto simp: reserve_hugepages_def Let_def add_buffers_eq not_less)
      qed
    qed
  qed
qed

subsection \<open>Out of memory\<close>

text \<open>
  Claim C4. When the operating system answers \<^verbatim>\<open>ENOMEM\<close> to the creating
  \<^verbatim>\<open>shmget\<close> (after any number \<open>k\<close> of \<^verbatim>\<open>EEXIST\<close> collisions), \<^verbatim>\<open>alloc_raw\<close>
  returns \<^verbatim>\<open>nullptr\<close> and \<^verbatim>\<open>reserve_hugepages\<close> returns \<^verbatim>\<open>false\<close>: the call
  returns, nothing is thrown, and the allocator is the one before the call, so that
  \<open>shm_reserved\<close>, the region list and every free-list are unchanged. Only the
  environment has moved: \<open>k + 1\<close> random values and \<^verbatim>\<open>shmget\<close> calls were used.
\<close>

theorem C4_enomem_returns_false_state_unchanged:
  assumes "shmget_script w = replicate k (Shmget_fail EEXIST) @ Shmget_fail ENOMEM # gs"
    and "k < length (slow_rand w)"
  shows "alloc_raw sz numa a w =
           Some (Inr 0, a,
             w\<lparr>slow_rand := drop (Suc k) (slow_rand w), shmget_script := gs,
               calls := calls w @ map (\<lambda>r. Shmget_create (choose_shm_key r) (round_up kHugepageSize sz))
                                    (take (Suc k) (slow_rand w))\<rparr>)
         \<and> (kMaxClassSize \<le> sz \<longrightarrow>
            reserve_hugepages sz numa a w =
              Some (Inr False, a,
                w\<lparr>slow_rand := drop (Suc k) (slow_rand w), shmget_script := gs,
                  calls := calls w @ map (\<lambda>r. Shmget_create (choose_shm_key r) (round_up kHugepageSize sz))
                                       (take (Suc k) (slow_rand w))\<rparr>))"
  using alloc_raw_ENOMEM [OF assms, of sz numa a]
  by (simp add: reserve_hugepages_def not_less [symmetric])

theorem C4_witness:
  "observe (reserve_hugepages (MB 8) 0 (new_HugeAlloc 0 reg_ok dereg_nop)
              (os_world [5, 5] [Shmget_fail EEXIST, Shmget_fail ENOMEM]))
   = Some (Inr False, [[], [], [], [], [], [], [], [], [], [], [], [], [], [], [], [], [], []], [],
           0, 0, 0, [Shmget_create 5 8388608, Shmget_create 5 8388608])"
proof -
  let ?w = "os_world [5, 5] [Shmget_fail EEXIST, Shmget_fail ENOMEM]"
  have s: "shmget_script ?w = replicate 1 (Shmget_fail EEXIST) @ Shmget_fail ENOMEM # []"
    by (simp add: os_world_def)
  have l: "1 < length (slow_rand ?w)"
    by (simp add: os_world_def)
  have m: "kMaxClassSize \<le> MB 8"
    by (simp add: kMaxClassSize_def)
  from C4_enomem_returns_false_state_unchanged [OF s l, of "MB 8" 0 "new_HugeAlloc 0 reg_ok dereg_nop"] m
  show ?thesis
    by (simp add: observe_def new_HugeAlloc_def os_world_def upt_kNumClasses choose_shm_key_5
        round_up_8MB MB_def)
qed

subsection \<open>A registration callback that throws\<close>

text \<open>
  Claim C1, as the code has it. Let the \<^verbatim>\<open>shmget\<close> loop obtain a segment, \<^verbatim>\<open>shmat\<close>
  and \<^verbatim>\<open>mbind\<close> succeed, and the registration callback throw \<open>e\<close>. Then
  \<^verbatim>\<open>reserve_hugepages\<close> ends with that same exception; the allocator is the one before
  the call (no region record appended, \<open>shm_reserved\<close> unchanged). The calls made are
  the creating \<^verbatim>\<open>shmget\<close>s, \<^verbatim>\<open>shmat\<close>, \<^verbatim>\<open>mbind\<close>, \<^verbatim>\<open>memset\<close> and the callback:
  no call detaches the segment or removes it, so the segment is still attached and present
  when the exception leaves the operation.
\<close>

theorem C1_registration_failure_leaves_segment:
  assumes "kMaxClassSize \<le> sz"
    and "shmget_loop (round_up kHugepageSize sz) (slow_rand w) (shmget_script w) (calls w)
           = Some (Got_segment key shm_id, rs, gs, cs)"
    and "shmat_res w shm_id \<noteq> 0"
    and "mbind_res w (shmat_res w shm_id) (round_up kHugepageSize sz) (push_bit (unat numa) 1) = 0"
    and "reg_mr_func a (shmat_res w shm_id) (round_up kHugepageSize sz) = Inl e"
  shows "reserve_hugepages sz numa a w =
           Some (Inl (Reg_mr_threw e), a,
             w\<lparr>slow_rand := rs, shmget_script := gs,
               calls := cs @ [Shmat shm_id,
                              Mbind (shmat_res w shm_id) (round_up kHugepageSize sz) (push_bit (unat numa) 1),
                              Memset_zero (shmat_res w shm_id) (round_up kHugepageSize sz),
                              Reg_mr (shmat_res w shm_id) (round_up kHugepageSize sz)]\<rparr>)
         \<and> filter is_cleanup_call
              (cs @ [Shmat shm_id,
                     Mbind (shmat_res w shm_id) (round_up kHugepageSize sz) (push_bit (unat numa) 1),
                     Memset_zero (shmat_res w shm_id) (round_up kHugepageSize sz),
                     Reg_mr (shmat_res w shm_id) (round_up kHugepageSize sz)])
            = filter is_cleanup_call (calls w)"
proof -
  have "alloc_raw sz numa a w =
           Some (Inl (Reg_mr_threw e), a,
             w\<lparr>slow_rand := rs, shmget_script := gs,
               calls := cs @ [Shmat shm_id,
                              Mbind (shmat_res w shm_id) (round_up kHugepageSize sz) (push_bit (unat numa) 1),
                              Memset_zero (shmat_res w shm_id) (round_up kHugepageSize sz),
                              Reg_mr (shmat_res w shm_id) (round_up kHugepageSize sz)]\<rparr>)"
    using assms(2-5) by (simp add: alloc_raw_def attach_and_register_def rt_assert_def Let_def)
  moreover have "filter is_cleanup_call cs = filter is_cleanup_call (calls w)"
    using assms(2) by (rule shmget_loop_cleanup)
  ultimately show ?thesis
    using assms(1) by (simp add: reserve_hugepages_def not_less [symmetric])
qed

theorem C1_witness:
  "observe (reserve_hugepages (MB 8) 0 (new_HugeAlloc 0 reg_fail dereg_nop) (os_world [5] [Shmget_id 1]))
   = Some (Inl (Reg_mr_threw ''registration failed''),
           [[], [], [], [], [], [], [], [], [], [], [], [], [], [], [], [], [], []], [], 0, 0, 0,
           [Shmget_create 5 8388608, Shmat 1, Mbind 1073741824 8388608 1,
            Memset_zero 1073741824 8388608, Reg_mr 1073741824 8388608])
   \<and> filter is_cleanup_call
        [Shmget_create 5 8388608, Shmat 1, Mbind 1073741824 8388608 1,
         Memset_zero 1073741824 8388608, Reg_mr 1073741824 8388608] = []"
proof -
  let ?a = "new_HugeAlloc 0 reg_fail dereg_nop"
  let ?w = "os_world [5] [Shmget_id 1]"
  have m: "kMaxClassSize \<le> MB 8"
    by (simp add: kMaxClassSize_def)
  have l: "shmget_loop (round_up kHugepageSize (MB 8)) (slow_rand ?w) (shmget_script ?w) (calls ?w)
           = Some (Got_segment 5 1, [], [], [Shmget_create 5 8388608])"
    by (simp add: os_world_def choose_shm_key_5 MB_def round_up_8MB)
  have at: "shmat_res ?w 1 \<noteq> 0"
    by (simp add: os_world_def)
  have mb: "mbind_res ?w (shmat_res ?w 1) (round_up kHugepageSize (MB 8)) (push_bit (unat (0 :: size_t)) 1) = 0"
    by (simp add: os_world_def)
  have rg: "reg_mr_func ?a (shmat_res ?w 1) (round_up kHugepageSize (MB 8)) = Inl ''registration failed''"
    by (simp add: new_HugeAlloc_def reg_fail_def)
  from C1_registration_failure_leaves_segment [OF m l at mb rg]
  show ?thesis
    by (simp add: observe_def new_HugeAlloc_def os_world_def upt_kNumClasses MB_def round_up_8MB)
qed

text \<open>
  The claim as stated asks that the segment has been detached and removed before the
  error leaves. It has not: with a callback that throws, the calls of the reserve
  operation end with the callback, and neither \<^verbatim>\<open>shmctl(IPC_RMID)\<close> nor \<^verbatim>\<open>shmdt\<close>
  is among them although segment 1 was created and attached.
\<close>

theorem C1_segment_not_removed_counterexample:
  "observe (reserve_hugepages (MB 8) 0 (new_HugeAlloc 0 reg_fail dereg_nop) (os_world [5] [Shmget_id 1]))
   = Some (Inl (Reg_mr_threw ''registration failed''),
           [[], [], [], [], [], [], [], [], [], [], [], [], [], [], [], [], [], []], [], 0, 0, 0,
           [Shmget_create 5 8388608, Shmat 1, Mbind 1073741824 8388608 1,
            Memset_zero 1073741824 8388608, Reg_mr 1073741824 8388608])"
  by (simp add: observe_def reserve_hugepages_def alloc_raw_def attach_and_register_def rt_assert_def
      new_HugeAlloc_def os_world_def reg_fail_def kMaxClassSize_def round_up_8MB choose_shm_key_5 upt_kNumClasses MB_def Let_def)

subsection \<open>Seeding the largest class\<close>

text \<open>
  Claim C2, as the code has it. A successful \<^verbatim>\<open>reserve_hugepages(size, numa_node)\<close>
  appends one region \<open>rg\<close>, of \<open>round_up(size)\<close> bytes and registered by the callback,
  and appends exactly \<open>size / MAX_CLASS_SIZE\<close> buffers to the free-list of the largest
  class and to no other: the \<open>i\<close>-th at address \<open>base + i * MAX_CLASS_SIZE\<close>, of
  \<open>MAX_CLASS_SIZE\<close> bytes, carrying the \<open>lkey\<close> of the region's registration. The
  buffers are consecutive from the base and span
  \<open>(size / MAX_CLASS_SIZE) * MAX_CLASS_SIZE \<le> size\<close> bytes, which lie within the region
  when rounding does not wrap; they cover the whole region when \<open>size\<close> is a multiple of
  \<open>MAX_CLASS_SIZE\<close>.
\<close>

theorem C2_reserve_seeds_largest_class:
  assumes "reserve_hugepages sz numa a w = Some (Inr True, a', w')"
  shows "\<exists>rg. shm_list a' = shm_list a @ [rg]
           \<and> region_size rg = round_up kHugepageSize sz
           \<and> reg_mr_func a (region_buf rg) (region_size rg) = Inr (mem_reg_info rg)
           \<and> freelist a' (kNumClasses - 1) =
               freelist a (kNumClasses - 1) @
                 map (\<lambda>i. \<lparr>buf = region_buf rg + of_nat i * kMaxClassSize, class_size = kMaxClassSize,
                            lkey = reg_lkey (mem_reg_info rg)\<rparr>)
                   [0..<unat (sz div kMaxClassSize)]
           \<and> (\<forall>j. j \<noteq> kNumClasses - 1 \<longrightarrow> freelist a' j = freelist a j)
           \<and> unat (sz div kMaxClassSize) * unat kMaxClassSize \<le> unat sz
           \<and> (unat sz + unat kHugepageSize \<le> 2 ^ 64 \<longrightarrow> unat sz \<le> unat (region_size rg))
           \<and> (unat sz mod unat kMaxClassSize = 0 \<longrightarrow>
                sz div kMaxClassSize * kMaxClassSize = region_size rg)"
  using assms
proof (cases rule: reserve_hugepages_cases)
  case unchanged
  then show ?thesis by simp
next
  case (aborted key p info)
  then show ?thesis by simp
next
  case (reserved key p info)
  let ?rg = "\<lparr>shm_key = key, region_buf = p, region_size = round_up kHugepageSize sz, mem_reg_info = info\<rparr>"
  show ?thesis
  proof (intro exI [of _ ?rg] conjI)
    from reserved show "shm_list a' = shm_list a @ [?rg]" by simp
    show "region_size ?rg = round_up kHugepageSize sz" by simp
    from reserved show "reg_mr_func a (region_buf ?rg) (region_size ?rg) = Inr (mem_reg_info ?rg)" by simp
    from reserved show "freelist a' (kNumClasses - 1) =
               freelist a (kNumClasses - 1) @
                 map (\<lambda>i. \<lparr>buf = region_buf ?rg + of_nat i * kMaxClassSize, class_size = kMaxClassSize,
                            lkey = reg_lkey (mem_reg_info ?rg)\<rparr>)
                   [0..<unat (sz div kMaxClassSize)]" by simp
    from reserved show "\<forall>j. j \<noteq> kNumClasses - 1 \<longrightarrow> freelist a' j = freelist a j" by simp
    show "unat (sz div kMaxClassSize) * unat kMaxClassSize \<le> unat sz"
      by (rule div_mult_le_unat)
    show "unat sz + unat kHugepageSize \<le> 2 ^ 64 \<longrightarrow> unat sz \<le> unat (region_size ?rg)"
      by (simp add: round_up_ge)
    show "unat sz mod unat kMaxClassSize = 0 \<longrightarrow>
                sz div kMaxClassSize * kMaxClassSize = region_size ?rg"
      by (simp add: round_up_of_multiple div_mult_of_multiple)
  qed
qed

theorem C2_witness:
  "\<exists>a' w'. reserve_hugepages (MB 16) 0 (new_HugeAlloc 0 reg_ok dereg_nop) (os_world [5] [Shmget_id 1])
             = Some (Inr True, a', w')
         \<and> map region_size (shm_list a') = [16777216]
         \<and> map class_size (freelist a' (kNumClasses - 1)) = [8388608, 8388608]
         \<and> map lkey (freelist a' (kNumClasses - 1)) = [7, 7]"
proof -
  have "\<exists>a' w'. reserve_hugepages (MB 16) 0 (new_HugeAlloc 0 reg_ok dereg_nop) (os_world [5] [Shmget_id 1])
             = Some (Inr True, a', w')"
    by (simp add: eval_defs)
  then obtain a' w' where
    h: "reserve_hugepages (MB 16) 0 (new_HugeAlloc 0 reg_ok dereg_nop) (os_world [5] [Shmget_id 1])
          = Some (Inr True, a', w')"
    by blast
  from C2_reserve_seeds_largest_class [OF h] obtain rg where
    rg: "shm_list a' = shm_list (new_HugeAlloc 0 reg_ok dereg_nop) @ [rg]"
      "region_size rg = round_up kHugepageSize (MB 16)"
      "reg_mr_func (new_HugeAlloc 0 reg_ok dereg_nop) (region_buf rg) (region_size rg) = Inr (mem_reg_info rg)"
      "freelist a' (kNumClasses - 1) =
         freelist (new_HugeAlloc 0 reg_ok dereg_nop) (kNumClasses - 1) @
           map (\<lambda>i. \<lparr>buf = region_buf rg + of_nat i * kMaxClassSize, class_size = kMaxClassSize,
                      lkey = reg_lkey (mem_reg_info rg)\<rparr>)
             [0..<unat (MB 16 div kMaxClassSize)]"
    by blast
  from rg(3) have "mem_reg_info rg = \<lparr>transport_mr = region_buf rg, reg_lkey = 7\<rparr>"
    by (simp add: new_HugeAlloc_def reg_ok_def)
  then have "reg_lkey (mem_reg_info rg) = 7"
    by simp
  with rg(1,2,4) have c: "map region_size (shm_list a') = [16777216]
         \<and> map class_size (freelist a' (kNumClasses - 1)) = [8388608, 8388608]
         \<and> map lkey (freelist a' (kNumClasses - 1)) = [7, 7]"
    by (simp add: new_HugeAlloc_def kMaxClassSize_def kHugepageSize_def round_up_def MB_def upt_rec comp_def)
  show ?thesis
    by (rule exI [of _ a'], rule exI [of _ w']) (use h c in simp)
qed

text \<open>
  The claim as stated has the buffers cover the reserved region for every
  \<open>size \<ge> MAX_CLASS_SIZE\<close>. For 9 MiB the region is 10 MiB long and the one buffer
  seeded covers its first 8 MiB.
\<close>

theorem C2_region_not_covered_counterexample:
  "observe (reserve_hugepages (MB 9) 0 (new_HugeAlloc 0 reg_ok dereg_nop) (os_world [5] [Shmget_id 1]))
   = Some (Inr True,
       [[], [], [], [], [], [], [], [], [], [], [], [], [], [], [], [], [],
        [\<lparr>buf = 1073741824, class_size = 8388608, lkey = 7\<rparr>]],
       [\<lparr>shm_key = 5, region_buf = 1073741824, region_size = 10485760,
         mem_reg_info = \<lparr>transport_mr = 1073741824, reg_lkey = 7\<rparr>\<rparr>],
       10485760, 0, 0,
       [Shmget_create 5 10485760, Shmat 1, Mbind 1073741824 10485760 1,
        Memset_zero 1073741824 10485760, Reg_mr 1073741824 10485760])"
  by (simp add: eval_defs)

subsection \<open>Construction\<close>

lemma reserve_hugepages_prev:
  "reserve_hugepages sz numa a w = Some (x, a', w') \<Longrightarrow> prev_allocation_size a' = prev_allocation_size a"
  by (erule reserve_hugepages_cases) simp_all

text \<open>
  Claim C6. When the \<^verbatim>\<open>assert\<close> on the NUMA node passes, construction is one call of
  \<^verbatim>\<open>reserve_hugepages\<close> with size \<open>max(initial_size, MAX_CLASS_SIZE)\<close>, on the empty
  allocator in which that value is stored as \<open>prev_allocation_size\<close>; however the call
  ends, the stored value is still that one, and the region list is empty or holds the
  one region of that size rounded up to hugepages.
\<close>

theorem C6_constructor_first_reservation:
  assumes "numa \<le> kMaxNumaNodes"
  shows "HugeAlloc_ctor kMaxNumaNodes initial_size numa reg dereg w =
           returning (\<lambda>success. ())
             (reserve_hugepages (max initial_size kMaxClassSize) numa
                ((new_HugeAlloc numa reg dereg)\<lparr>prev_allocation_size := max initial_size kMaxClassSize\<rparr>) w)
       \<and> (\<forall>x a' w'. HugeAlloc_ctor kMaxNumaNodes initial_size numa reg dereg w = Some (x, a', w') \<longrightarrow>
             prev_allocation_size a' = max initial_size kMaxClassSize
           \<and> (shm_list a' = []
              \<or> (\<exists>rg. shm_list a' = [rg]
                     \<and> region_size rg = round_up kHugepageSize (max initial_size kMaxClassSize))))"
proof -
  let ?init = "max initial_size kMaxClassSize"
  let ?a = "(new_HugeAlloc numa reg dereg)\<lparr>prev_allocation_size := ?init\<rparr>"
  have m: "(if initial_size < kMaxClassSize then kMaxClassSize else initial_size) = ?init"
    by (auto simp: max_def)
  have eq: "HugeAlloc_ctor kMaxNumaNodes initial_size numa reg dereg w =
           returning (\<lambda>success. ()) (reserve_hugepages ?init numa ?a w)"
    using assms
    by (simp add: HugeAlloc_ctor_def returning_def m Let_def split: option.splits sum.splits prod.splits)
  have "prev_allocation_size a' = ?init
           \<and> (shm_list a' = [] \<or> (\<exists>rg. shm_list a' = [rg] \<and> region_size rg = round_up kHugepageSize ?init))"
    if c: "HugeAlloc_ctor kMaxNumaNodes initial_size numa reg dereg w = Some (x, a', w')" for x a' w'
  proof -
    from c eq obtain y where r: "reserve_hugepages ?init numa ?a w = Some (y, a', w')"
      by (auto simp: returning_def split: option.splits sum.splits prod.splits)
    from reserve_hugepages_prev [OF r] have p: "prev_allocation_size a' = ?init" by simp
    from r have "shm_list a' = [] \<or> (\<exists>rg. shm_list a' = [rg] \<and> region_size rg = round_up kHugepageSize ?init)"
      by (cases rule: reserve_hugepages_cases) (simp_all add: new_HugeAlloc_def)
    with p show ?thesis by simp
  qed
  with eq show ?thesis by blast
qed

theorem C6_witness:
  "observe (HugeAlloc_ctor 8 (MB 4) 0 reg_ok dereg_nop (os_world [5] [Shmget_id 1]))
   = Some (Inr (),
       [[], [], [], [], [], [], [], [], [], [], [], [], [], [], [], [], [],
        [\<lparr>buf = 1073741824, class_size = 8388608, lkey = 7\<rparr>]],
       [\<lparr>shm_key = 5, region_buf = 1073741824, region_size = 8388608,
         mem_reg_info = \<lparr>transport_mr = 1073741824, reg_lkey = 7\<rparr>\<rparr>],
       8388608, 0, 8388608,
       [Shmget_create 5 8388608, Shmat 1, Mbind 1073741824 8388608 1,
        Memset_zero 1073741824 8388608, Reg_mr 1073741824 8388608])"
proof -
  have n: "(0 :: size_t) \<le> 8" by simp
  have m: "max (MB 4) kMaxClassSize = 8388608"
    by (simp add: kMaxClassSize_def MB_def)
  from C6_constructor_first_reservation [OF n, of "MB 4" reg_ok dereg_nop "os_world [5] [Shmget_id 1]"]
  have "HugeAlloc_ctor 8 (MB 4) 0 reg_ok dereg_nop (os_world [5] [Shmget_id 1]) =
           returning (\<lambda>success. ())
             (reserve_hugepages 8388608 0
                ((new_HugeAlloc 0 reg_ok dereg_nop)\<lparr>prev_allocation_size := 8388608\<rparr>)
                (os_world [5] [Shmget_id 1]))"
    by (simp only: m)
  then show ?thesis
    by (simp add: returning_def observe_def reserve_hugepages_def alloc_raw_def
        attach_and_register_def rt_assert_def new_HugeAlloc_def os_world_def reg_ok_def
        kMaxClassSize_def kHugepageSize_def round_up_def choose_shm_key_5
        kNumClasses_def upt_rec MB_def Let_def add_buffers.simps)
qed

subsection \<open>Statistics output\<close>

text \<open>
  Claim C10. \<^verbatim>\<open>print_stats\<close> returns the allocator it was given: every free-list, the
  region list, \<open>shm_reserved\<close>, \<open>user_alloc_tot\<close> and \<open>prev_allocation_size\<close> are as
  before. It appends five lines, one line per region and one per size class to the
  diagnostic stream, and changes nothing else of the environment.
\<close>

theorem C10_print_stats_changes_no_allocator_state:
  "fst (print_stats a w) = a
   \<and> freelist (fst (print_stats a w)) = freelist a
   \<and> shm_list (fst (print_stats a w)) = shm_list a
   \<and> shm_reserved (fst (print_stats a w)) = shm_reserved a
   \<and> user_alloc_tot (fst (print_stats a w)) = user_alloc_tot a
   \<and> prev_allocation_size (fst (print_stats a w)) = prev_allocation_size a
   \<and> snd (print_stats a w) = w\<lparr>stderr := stderr w @ stats_lines a\<rparr>
   \<and> length (stats_lines a) = 5 + length (shm_list a) + kNumClasses
   \<and> run_op Print_stats a w = Some (Inr Ret_unit, a, w\<lparr>stderr := stderr w @ stats_lines a\<rparr>)"
  by (simp add: print_stats_def stats_lines_def)

subsection \<open>The key given to \<^verbatim>\<open>shmget\<close>\<close>

text \<open>
  Claim C7 asks for \<open>0 < os_key < 2^31\<close> for every value of the random utility. The
  code's comment says ``Choose a positive SHM key'', but for a random value whose low 32
  bits are zero (0, or \<open>2^32\<close>) the key is 0, and that key is passed to \<^verbatim>\<open>shmget\<close>.
  (For low bits \<open>0x80000000\<close> the argument of \<^verbatim>\<open>std::abs\<close> is \<open>INT_MIN\<close>; the
  two's complement result is negative.)
\<close>

theorem C7_key_zero_for_random_zero:
  "choose_shm_key 0 = 0
   \<and> choose_shm_key 4294967296 = 0
   \<and> shmget_loop 8388608 [0] [Shmget_id 1] [] = Some (Got_segment 0 1, [], [], [Shmget_create 0 8388608])
   \<and> sint (choose_shm_key 2147483648) = - 2147483648"
  by (simp add: choose_shm_key_def word_sless_alt)

subsection \<open>\<^verbatim>\<open>create_cache\<close> with a surplus\<close>

text \<open>With no deficit, \<^verbatim>\<open>create_cache\<close> returns \<^verbatim>\<open>true\<close> and changes nothing.\<close>

lemma create_cache_no_deficit:
  "num_buffers = of_nat (length (freelist a (get_class sz))) \<Longrightarrow>
   create_cache sz num_buffers a w = Some (Inr True, a, w)"
  by (simp add: create_cache_def)

text \<open>
  Claim C3 asks the same whenever the free-list holds at least \<open>n\<close> buffers. With more
  than \<open>n\<close> the unsigned subtraction wraps and \<^verbatim>\<open>reqd_buffers <= 0\<close> is false.
  After construction with 16 MiB the largest class holds two buffers;
  \<^verbatim>\<open>create_cache(8 MiB, 1)\<close> then asks for \<open>2^64 - 1\<close> buffers: it allocates both,
  attempts to reserve 32 MiB, and returns \<^verbatim>\<open>false\<close> when the operating system is out
  of memory, with the free-list empty and 16 MiB counted as allocated to the user.
\<close>

theorem C3_create_cache_with_surplus_allocates:
  "observe (HugeAlloc_ctor 8 (MB 16) 0 reg_ok dereg_nop (os_world [5, 6] [Shmget_id 1, Shmget_fail ENOMEM]))
   = Some (Inr (),
       [[], [], [], [], [], [], [], [], [], [], [], [], [], [], [], [], [],
        [\<lparr>buf = 1073741824, class_size = 8388608, lkey = 7\<rparr>,
         \<lparr>buf = 1082130432, class_size = 8388608, lkey = 7\<rparr>]],
       [\<lparr>shm_key = 5, region_buf = 1073741824, region_size = 16777216,
         mem_reg_info = \<lparr>transport_mr = 1073741824, reg_lkey = 7\<rparr>\<rparr>],
       16777216, 0, 16777216,
       [Shmget_create 5 16777216, Shmat 1, Mbind 1073741824 16777216 1,
        Memset_zero 1073741824 16777216, Reg_mr 1073741824 16777216])
   \<and> observe (then_op (HugeAlloc_ctor 8 (MB 16) 0 reg_ok dereg_nop
                 (os_world [5, 6] [Shmget_id 1, Shmget_fail ENOMEM]))
               (create_cache (MB 8) 1))
   = Some (Inr False,
       [[], [], [], [], [], [], [], [], [], [], [], [], [], [], [], [], [], []],
       [\<lparr>shm_key = 5, region_buf = 1073741824, region_size = 16777216,
         mem_reg_info = \<lparr>transport_mr = 1073741824, reg_lkey = 7\<rparr>\<rparr>],
       16777216, 16777216, 16777216,
       [Shmget_create 5 16777216, Shmat 1, Mbind 1073741824 16777216 1,
        Memset_zero 1073741824 16777216, Reg_mr 1073741824 16777216,
        Shmget_create 6 33554432])"
  by (simp add: eval_defs create_cache_def get_class_def cache_alloc_loop.simps alloc_def
      buddy_alloc_def split_down.simps class_max_size_def kMinClassSize_def null_buffer_def
      unsigned_minus_1_eq_mask mask_eq_exp_minus_1)

subsection \<open>What the operations change of the region list and the counters\<close>

lemma num_buffers_ge_1:
  assumes "kMaxClassSize \<le> sz"
  shows "\<not> sz div kMaxClassSize < 1"
proof -
  from assms have "8388608 \<le> unat sz"
    by (simp add: word_le_nat_alt unat_kMax)
  then have "1 \<le> unat sz div 8388608"
    by (simp add: less_eq_div_iff_mult_less_eq)
  then have "1 \<le> unat (sz div kMaxClassSize)"
    by (simp add: unat_div unat_kMax)
  then show ?thesis
    by (simp add: word_less_nat_alt)
qed

lemma reserve_hugepages_result:
  assumes "reserve_hugepages sz numa a w = Some (x, a', w')"
  obtains (unchanged) "a' = a" and "x \<noteq> Inr True"
  | (reserved) key p info where "x = Inr True" and "p \<noteq> 0" and "kMaxClassSize \<le> sz"
      and "reg_mr_func a p (round_up kHugepageSize sz) = Inr info"
      and "a' = a\<lparr>shm_list := shm_list a @
                          [\<lparr>shm_key = key, region_buf = p,
                            region_size = round_up kHugepageSize sz, mem_reg_info = info\<rparr>],
                     shm_reserved := shm_reserved a + round_up kHugepageSize sz,
                     freelist := (freelist a)
                          (kNumClasses - 1 := freelist a (kNumClasses - 1) @
                             map (\<lambda>i. \<lparr>buf = p + of_nat i * kMaxClassSize, class_size = kMaxClassSize,
                                        lkey = reg_lkey info\<rparr>)
                               [0..<unat (sz div kMaxClassSize)])\<rparr>"
proof (cases "sz < kMaxClassSize")
  case True
  with assms show ?thesis by (intro that(1)) (auto simp: reserve_hugepages_def)
next
  case False
  then have ge: "kMaxClassSize \<le> sz" by simp
  from assms ge obtain y a1 w1 where ar: "alloc_raw sz numa a w = Some (y, a1, w1)"
    by (cases "alloc_raw sz numa a w") (auto simp: reserve_hugepages_def not_less [symmetric])
  from ar show ?thesis
  proof (cases rule: alloc_raw_cases)
    case unchanged
    with assms False ar show ?thesis
      by (intro that(1)) (auto simp: reserve_hugepages_def)
  next
    case (reserved key p info)
    with assms False ar num_buffers_ge_1 [OF ge] show ?thesis
      by (intro that(2)) (auto simp: reserve_hugepages_def Let_def add_buffers_eq not_less)
  qed
qed

lemma buddy_alloc_frame:
  assumes "buddy_alloc target a = Some (b, a')"
  shows "shm_list a' = shm_list a \<and> shm_reserved a' = shm_reserved a
       \<and> prev_allocation_size a' = prev_allocation_size a
       \<and> numa_node a' = numa_node a \<and> reg_mr_func a' = reg_mr_func a
       \<and> user_alloc_tot a' = user_alloc_tot a + class_max_size target"
  using assms
  by (auto simp: buddy_alloc_def Let_def split: option.splits prod.splits)

lemma alloc_regions:
  assumes "alloc sz a w = Some (x, a', w')"
  obtains (same) "shm_list a' = shm_list a" and "shm_reserved a' = shm_reserved a"
      and "prev_allocation_size a' = prev_allocation_size a"
  | (grown) rg where "shm_list a' = shm_list a @ [rg]"
      and "shm_reserved a' = shm_reserved a + region_size rg"
      and "region_size rg = round_up kHugepageSize (max (prev_allocation_size a * 2) sz)"
      and "kMaxClassSize \<le> max (prev_allocation_size a * 2) sz"
      and "sz \<le> kMaxClassSize"
      and "prev_allocation_size a' = max (prev_allocation_size a * 2) sz"
proof (cases "sz = 0 \<or> kMaxClassSize < sz")
  case True
  with assms show ?thesis by (intro that(1)) (auto simp: alloc_def)
next
  case False
  then have le: "sz \<le> kMaxClassSize" by (simp add: not_less)
  show ?thesis
  proof (cases "buddy_alloc (get_class sz) a")
    case (Some r)
    obtain b a1 where r: "r = (b, a1)" by (cases r)
    with assms False Some have "a' = a1" by (simp add: alloc_def)
    with buddy_alloc_frame [OF Some [unfolded r]] show ?thesis
      by (intro that(1)) simp_all
  next
    case None
    let ?new = "max (prev_allocation_size a * 2) sz"
    from assms False None obtain y a1 w1 where
      rh: "reserve_hugepages ?new (numa_node a) a w = Some (y, a1, w1)"
      by (cases "reserve_hugepages ?new (numa_node a) a w") (auto simp: alloc_def Let_def)
    from rh show ?thesis
    proof (cases rule: reserve_hugepages_result)
      case unchanged
      with assms False None rh show ?thesis
        by (intro that(1)) (auto simp: alloc_def Let_def split: sum.splits)
    next
      case (reserved key p info)
      let ?rg = "\<lparr>shm_key = key, region_buf = p, region_size = round_up kHugepageSize ?new, mem_reg_info = info\<rparr>"
      let ?a2 = "a1\<lparr>prev_allocation_size := ?new\<rparr>"
      have a': "shm_list a' = shm_list ?a2 \<and> shm_reserved a' = shm_reserved ?a2
              \<and> prev_allocation_size a' = prev_allocation_size ?a2"
      proof (cases "buddy_alloc (get_class sz) ?a2")
        case None
        with assms False \<open>buddy_alloc (get_class sz) a = None\<close> rh reserved(1) show ?thesis
          by (simp add: alloc_def Let_def)
      next
        case (Some r2)
        obtain b a3 where r2: "r2 = (b, a3)" by (cases r2)
        with assms False \<open>buddy_alloc (get_class sz) a = None\<close> rh reserved(1) Some
        have "a' = a3" by (simp add: alloc_def Let_def)
        with buddy_alloc_frame [OF Some [unfolded r2]] show ?thesis by simp
      qed
      show ?thesis
      proof (rule that(2) [of ?rg])
        from a' reserved show "shm_list a' = shm_list a @ [?rg]" by simp
        from a' reserved show "shm_reserved a' = shm_reserved a + region_size ?rg" by simp
        show "region_size ?rg = round_up kHugepageSize ?new" by simp
        from reserved show "kMaxClassSize \<le> ?new" by simp
        from le show "sz \<le> kMaxClassSize" .
        from a' show "prev_allocation_size a' = ?new" by simp
      qed
    qed
  qed
qed


lemma free_buf_frame:
  "shm_list (free_buf b a) = shm_list a \<and> shm_reserved (free_buf b a) = shm_reserved a
   \<and> prev_allocation_size (free_buf b a) = prev_allocation_size a"
  by (simp add: free_buf_def Let_def)

lemma cache_alloc_loop_preserves:
  assumes step: "\<And>sz a w x a' w'. P a \<Longrightarrow> alloc sz a w = Some (x, a', w') \<Longrightarrow> P a'"
  shows "P a \<Longrightarrow> cache_alloc_loop i n sz vec a w = Some (x, a', w') \<Longrightarrow> P a'"
proof (induction i n sz vec a w rule: cache_alloc_loop.induct)
  case (1 i n sz vec a w)
  show ?case
  proof (cases "i < n")
    case False
    with "1.prems" show ?thesis
      by (simp add: cache_alloc_loop.simps)
  next
    case True
    show ?thesis
    proof (cases "alloc sz a w")
      case None
      with "1.prems" True show ?thesis
        by (simp add: cache_alloc_loop.simps)
    next
      case (Some r)
      obtain y a1 w1 where r: "r = (y, a1, w1)" by (cases r)
      from step [OF "1.prems"(1) Some [unfolded r]] have P1: "P a1" .
      show ?thesis
      proof (cases y)
        case (Inl e)
        with "1.prems" True Some r P1 show ?thesis
          by (simp add: cache_alloc_loop.simps)
      next
        case (Inr buffer)
        show ?thesis
        proof (cases "buf buffer = 0")
          case z: True
          with "1.prems" True Some r P1 Inr show ?thesis
            by (simp add: cache_alloc_loop.simps)
        next
          case nz: False
          from "1.prems"(2) True Some r Inr nz
          have "cache_alloc_loop (Suc i) n sz (vec @ [buffer]) a1 w1 = Some (x, a', w')"
            by (simp add: cache_alloc_loop.simps)
          with "1.IH" [OF True Some [unfolded r] refl Inr refl nz P1] show ?thesis
            by simp
        qed
      qed
    qed
  qed
qed

lemma cache_free_loop_preserves:
  assumes step: "\<And>a b. P a \<Longrightarrow> P (free_buf b a)"
  shows "P a \<Longrightarrow> P (cache_free_loop i n vec a)"
proof (induction i n vec a rule: cache_free_loop.induct)
  case (1 i n vec a)
  show ?case
  proof (cases "i < n")
    case True
    from "1.IH" [OF True step [OF "1.prems"]] True show ?thesis
      by (subst cache_free_loop.simps) simp
  next
    case False
    with "1.prems" show ?thesis
      by (subst cache_free_loop.simps) simp
  qed
qed

lemma create_cache_preserves:
  assumes astep: "\<And>sz a w x a' w'. P a \<Longrightarrow> alloc sz a w = Some (x, a', w') \<Longrightarrow> P a'"
    and fstep: "\<And>a b. P a \<Longrightarrow> P (free_buf b a)"
    and P: "P a"
    and cc: "create_cache sz n a w = Some (x, a', w')"
  shows "P a'"
proof (cases "n - of_nat (length (freelist a (get_class sz))) \<le> 0")
  case True
  with cc P show ?thesis by (simp add: create_cache_def)
next
  case False
  let ?d = "unat (n - of_nat (length (freelist a (get_class sz))))"
  from cc False obtain y a1 w1 where
    l: "cache_alloc_loop 0 ?d sz [] a w = Some (y, a1, w1)"
    by (cases "cache_alloc_loop 0 ?d sz [] a w") (auto simp: create_cache_def Let_def)
  from cache_alloc_loop_preserves [of P, OF astep P l] have P1: "P a1" by simp
  show ?thesis
  proof (cases y)
    case (Inl e)
    with cc False l P1 show ?thesis by (simp add: create_cache_def Let_def)
  next
    case (Inr r)
    obtain ok vec where r: "r = (ok, vec)" by (cases r)
    show ?thesis
    proof (cases ok)
      case False
      with cc \<open>\<not> n - of_nat (length (freelist a (get_class sz))) \<le> 0\<close> l P1 Inr r show ?thesis
        by (simp add: create_cache_def Let_def)
    next
      case True
      with cc \<open>\<not> n - of_nat (length (freelist a (get_class sz))) \<le> 0\<close> l Inr r
      have "a' = cache_free_loop 0 ?d vec a1"
        by (simp add: create_cache_def Let_def)
      with cache_free_loop_preserves [of P, OF fstep P1] show ?thesis by simp
    qed
  qed
qed

lemma run_op_preserves:
  assumes astep: "\<And>sz a w x a' w'. P a \<Longrightarrow> alloc sz a w = Some (x, a', w') \<Longrightarrow> P a'"
    and fstep: "\<And>a b. P a \<Longrightarrow> P (free_buf b a)"
    and P: "P a"
    and r: "run_op opn a w = Some (x, a', w')"
  shows "P a'"
proof (cases opn)
  case (Alloc sz)
  with r obtain y where "alloc sz a w = Some (y, a', w')"
    by (auto simp: returning_def split: option.splits sum.splits)
  with astep P show ?thesis by blast
next
  case (Free_buf b)
  with r fstep [OF P] show ?thesis by auto
next
  case (Create_cache sz n)
  with r obtain y where "create_cache sz n a w = Some (y, a', w')"
    by (auto simp: returning_def split: option.splits sum.splits)
  from create_cache_preserves [of P, OF astep fstep P this] show ?thesis by simp
next
  case Print_stats
  with r P show ?thesis by (simp add: print_stats_def)
qed

lemma unat_sum_list_le:
  "unat (sum_list (map f xs) :: size_t) \<le> sum_list (map (\<lambda>x. unat (f x)) xs)"
proof (induction xs)
  case Nil
  show ?case by simp
next
  case (Cons x xs)
  have "unat (f x + sum_list (map f xs)) \<le> unat (f x) + unat (sum_list (map f xs))"
    by (simp add: unat_word_ariths)
  with Cons show ?case by simp
qed

lemma unat_add_sum_list:
  assumes "unat (c :: size_t) + sum_list (map (\<lambda>x. unat (f x)) xs) < 2 ^ 64"
  shows "unat (c + sum_list (map f xs)) = unat c + sum_list (map (\<lambda>x. unat (f x)) xs)"
  using assms
proof (induction xs arbitrary: c)
  case Nil
  show ?case by simp
next
  case (Cons x xs)
  from Cons.prems have lt: "unat c + unat (f x) < 2 ^ 64" by simp
  then have cx: "unat (c + f x) = unat c + unat (f x)"
    by (simp add: unat_add_lem [THEN iffD1])
  with Cons.prems have "unat (c + f x) + sum_list (map (\<lambda>x. unat (f x)) xs) < 2 ^ 64" by simp
  from Cons.IH [OF this] cx show ?case by (simp add: add.assoc)
qed

lemma alloc_grows_by:
  assumes "grows_by a0 a new" and "alloc sz a w = Some (x, a', w')"
  shows "\<exists>new'. grows_by a0 a' new'"
  using assms(2)
proof (cases rule: alloc_regions)
  case same
  with assms(1) have "grows_by a0 a' new" by (simp add: grows_by_def)
  then show ?thesis ..
next
  case (grown rg)
  with assms(1) have "grows_by a0 a' (new @ [rg])" by (simp add: grows_by_def)
  then show ?thesis ..
qed

lemma run_op_grows_by:
  assumes "run_op opn a w = Some (x, a', w')"
  shows "\<exists>new. grows_by a a' new"
proof -
  have "grows_by a a []" by (simp add: grows_by_def)
  then have P: "\<exists>new. grows_by a a new" ..
  show ?thesis
  proof (rule run_op_preserves [where P = "\<lambda>b. \<exists>new. grows_by a b new", OF _ _ P assms])
    fix sz b w x b' w'
    assume "\<exists>new. grows_by a b new" and "alloc sz b w = Some (x, b', w')"
    then show "\<exists>new. grows_by a b' new" by (auto dest: alloc_grows_by)
  next
    fix b c
    assume "\<exists>new. grows_by a b new"
    then show "\<exists>new. grows_by a (free_buf c b) new"
      by (simp add: grows_by_def free_buf_frame)
  qed
qed

lemma ctor_state:
  assumes "HugeAlloc_ctor kMaxNumaNodes initial_size numa reg dereg w = Some (Inr (), a', w')"
  shows "prev_allocation_size a' = max initial_size kMaxClassSize
       \<and> (shm_list a' = []
          \<or> (\<exists>rg. shm_list a' = [rg]
                 \<and> region_size rg = round_up kHugepageSize (max initial_size kMaxClassSize)))
       \<and> shm_reserved a' = sum_list (map region_size (shm_list a'))"
proof -
  let ?init = "max initial_size kMaxClassSize"
  let ?a = "(new_HugeAlloc numa reg dereg)\<lparr>prev_allocation_size := ?init\<rparr>"
  have m: "(if initial_size < kMaxClassSize then kMaxClassSize else initial_size) = ?init"
    by (auto simp: max_def)
  from assms have le: "numa \<le> kMaxNumaNodes"
    by (cases "numa \<le> kMaxNumaNodes") (simp_all add: HugeAlloc_ctor_def)
  with assms obtain y where r: "reserve_hugepages ?init numa ?a w = Some (y, a', w')"
    by (cases "reserve_hugepages ?init numa ?a w")
       (auto simp: HugeAlloc_ctor_def m Let_def split: sum.splits)
  from r show ?thesis
    by (cases rule: reserve_hugepages_result) (simp_all add: new_HugeAlloc_def)
qed

text \<open>
  Claim C8. Every public operation (\<^verbatim>\<open>alloc\<close>, \<^verbatim>\<open>free_buf\<close>, \<^verbatim>\<open>create_cache\<close>,
  \<^verbatim>\<open>print_stats\<close>), however it ends, only appends regions to the region list and adds
  their byte sizes to \<open>shm_reserved\<close>; nothing is ever subtracted. The counter is a
  \<^verbatim>\<open>size_t\<close>: as long as the sum does not exceed what 64 bits hold, its value after
  the operation is its value before plus the bytes of the new regions, hence not
  smaller. A successful \<^verbatim>\<open>reserve_hugepages\<close> appends one region and adds its byte
  size; an unsuccessful one leaves the region list and the counter as they were. After
  construction the counter is the sum of the region sizes.
\<close>

theorem C8_shm_reserved_monotonic:
  "(run_op opn a w = Some (x, a', w') \<longrightarrow>
      (\<exists>new. shm_list a' = shm_list a @ new
            \<and> shm_reserved a' = shm_reserved a + sum_list (map region_size new)
            \<and> (unat (shm_reserved a) + sum_list (map (\<lambda>r. unat (region_size r)) new) < 2 ^ 64 \<longrightarrow>
                 unat (shm_reserved a') =
                   unat (shm_reserved a) + sum_list (map (\<lambda>r. unat (region_size r)) new))))
   \<and> (reserve_hugepages sz numa a w = Some (y, b, v) \<longrightarrow>
        (if y = Inr True
         then \<exists>rg. shm_list b = shm_list a @ [rg]
                  \<and> region_size rg = round_up kHugepageSize sz
                  \<and> shm_reserved b = shm_reserved a + region_size rg
         else shm_list b = shm_list a \<and> shm_reserved b = shm_reserved a))
   \<and> (HugeAlloc_ctor kMaxNumaNodes initial_size numa reg dereg w = Some (Inr (), c, u) \<longrightarrow>
        shm_reserved c = sum_list (map region_size (shm_list c)))"
proof (intro conjI impI)
  assume "run_op opn a w = Some (x, a', w')"
  from run_op_grows_by [OF this] obtain new where
    g: "shm_list a' = shm_list a @ new"
       "shm_reserved a' = shm_reserved a + sum_list (map region_size new)"
    by (auto simp: grows_by_def)
  have "unat (shm_reserved a') = unat (shm_reserved a) + sum_list (map (\<lambda>r. unat (region_size r)) new)"
    if "unat (shm_reserved a) + sum_list (map (\<lambda>r. unat (region_size r)) new) < 2 ^ 64"
    using unat_add_sum_list [OF that] g(2) by simp
  with g show "\<exists>new. shm_list a' = shm_list a @ new
            \<and> shm_reserved a' = shm_reserved a + sum_list (map region_size new)
            \<and> (unat (shm_reserved a) + sum_list (map (\<lambda>r. unat (region_size r)) new) < 2 ^ 64 \<longrightarrow>
                 unat (shm_reserved a') =
                   unat (shm_reserved a) + sum_list (map (\<lambda>r. unat (region_size r)) new))"
    by blast
next
  assume "reserve_hugepages sz numa a w = Some (y, b, v)"
  then show "if y = Inr True
         then \<exists>rg. shm_list b = shm_list a @ [rg]
                  \<and> region_size rg = round_up kHugepageSize sz
                  \<and> shm_reserved b = shm_reserved a + region_size rg
         else shm_list b = shm_list a \<and> shm_reserved b = shm_reserved a"
    by (cases rule: reserve_hugepages_result) simp_all
next
  assume "HugeAlloc_ctor kMaxNumaNodes initial_size numa reg dereg w = Some (Inr (), c, u)"
  from ctor_state [OF this] show "shm_reserved c = sum_list (map region_size (shm_list c))"
    by simp
qed

theorem C8_witness:
  "\<exists>x a' w'. run_op (Alloc 100) ((new_HugeAlloc 0 reg_ok dereg_nop)\<lparr>prev_allocation_size := MB 4\<rparr>)
                 (os_world [5] [Shmget_id 1]) = Some (x, a', w')
             \<and> map region_size (shm_list a') = [8388608]
             \<and> unat (shm_reserved a') = 8388608"
proof -
  let ?a = "(new_HugeAlloc 0 reg_ok dereg_nop)\<lparr>prev_allocation_size := MB 4\<rparr>"
  let ?w = "os_world [5] [Shmget_id 1]"
  have "\<exists>x a' w'. run_op (Alloc 100) ?a ?w = Some (x, a', w') \<and> map region_size (shm_list a') = [8388608]"
    by (simp add: returning_def alloc_def get_class_def class_max_size_def kMinClassSize_def
        buddy_alloc_def split_down.simps max_def reserve_hugepages_def alloc_raw_def
        attach_and_register_def rt_assert_def new_HugeAlloc_def os_world_def reg_ok_def kMaxClassSize_def
        kHugepageSize_def round_up_def choose_shm_key_5 kNumClasses_def upt_rec MB_def Let_def
        add_buffers.simps)
  then obtain x a' w' where
    h: "run_op (Alloc 100) ?a ?w = Some (x, a', w')" and rs: "map region_size (shm_list a') = [8388608]"
    by (elim exE conjE)
  from C8_shm_reserved_monotonic [of "Alloc 100" ?a ?w x a' w'] h obtain new where
    n: "shm_list a' = shm_list ?a @ new"
      "unat (shm_reserved ?a) + sum_list (map (\<lambda>r. unat (region_size r)) new) < 2 ^ 64 \<longrightarrow>
         unat (shm_reserved a') = unat (shm_reserved ?a) + sum_list (map (\<lambda>r. unat (region_size r)) new)"
    by blast
  from n(1) have "new = shm_list a'" by (simp add: new_HugeAlloc_def)
  with rs have "map region_size new = [8388608]" by simp
  then have "map (\<lambda>r. unat (region_size r)) new = [8388608]"
    by (auto simp: map_eq_Cons_conv)
  with n(2) have u: "unat (shm_reserved a') = 8388608" by (simp add: new_HugeAlloc_def)
  show ?thesis
    by (rule exI [of _ x], rule exI [of _ a'], rule exI [of _ w']) (use h rs u in simp)
qed

subsection \<open>Region sizes\<close>

lemma word_mod_0_iff: "(x mod k = 0) = (unat x mod unat k = 0)" for x k :: size_t
  by (simp add: unat_mod flip: unat_eq_0)

lemma unat_double_multiple:
  assumes "unat (x :: size_t) mod unat kMaxClassSize = 0"
  shows "unat (x * 2) mod unat kMaxClassSize = 0"
proof -
  have "unat (x * 2) = (unat x * 2) mod 2 ^ 64"
    by (simp add: unat_word_ariths)
  moreover have "(8388608 :: nat) dvd 2 ^ 64" by simp
  ultimately have "unat (x * 2) mod 8388608 = (unat x * 2) mod 8388608"
    by (simp only: mod_mod_cancel)
  with assms show ?thesis by (simp add: unat_kMax mod_mult_left_eq [symmetric] del: mod_mult_left_eq)
qed

lemma growth_size_multiple:
  assumes "unat (p :: size_t) mod unat kMaxClassSize = 0"
    and "kMaxClassSize \<le> max (p * 2) sz" and "sz \<le> kMaxClassSize"
  shows "unat (max (p * 2) sz) mod unat kMaxClassSize = 0"
proof (cases "p * 2 \<le> sz")
  case True
  with assms(2,3) have "sz = kMaxClassSize" by (simp add: max_def)
  with True show ?thesis by (simp add: max_def)
next
  case False
  with unat_double_multiple [OF assms(1)] show ?thesis by (simp add: max_def)
qed

lemma alloc_regions_multiple_hugepage:
  assumes "regions_multiple kHugepageSize a" and "alloc sz a w = Some (x, a', w')"
  shows "regions_multiple kHugepageSize a'"
  using assms(2)
proof (cases rule: alloc_regions)
  case same
  with assms(1) show ?thesis by (simp add: regions_multiple_def)
next
  case (grown rg)
  with assms(1) show ?thesis by (simp add: regions_multiple_def round_up_multiple)
qed

lemma alloc_regions_multiple_class:
  assumes "regions_multiple kMaxClassSize a \<and> prev_allocation_size a mod kMaxClassSize = 0"
    and "alloc sz a w = Some (x, a', w')"
  shows "regions_multiple kMaxClassSize a' \<and> prev_allocation_size a' mod kMaxClassSize = 0"
  using assms(2)
proof (cases rule: alloc_regions)
  case same
  with assms(1) show ?thesis by (simp add: regions_multiple_def)
next
  case (grown rg)
  from assms(1) have "unat (prev_allocation_size a) mod unat kMaxClassSize = 0"
    by (simp add: word_mod_0_iff)
  from growth_size_multiple [OF this grown(4,5)]
  have m: "unat (max (prev_allocation_size a * 2) sz) mod unat kMaxClassSize = 0" .
  with grown(3) have "region_size rg = max (prev_allocation_size a * 2) sz"
    by (simp add: round_up_of_multiple)
  with m grown assms(1) show ?thesis
    by (simp add: regions_multiple_def word_mod_0_iff)
qed

lemma reachable_regions_multiple:
  assumes "reachable initial_size a"
  shows "regions_multiple kHugepageSize a
       \<and> (max initial_size kMaxClassSize mod kMaxClassSize = 0 \<longrightarrow>
            regions_multiple kMaxClassSize a \<and> prev_allocation_size a mod kMaxClassSize = 0)"
  using assms
proof (induction rule: reachable.induct)
  case (constructed kMaxNumaNodes numa reg dereg w a w')
  let ?init = "max initial_size kMaxClassSize"
  from ctor_state [OF constructed] have p: "prev_allocation_size a = ?init"
    and l: "shm_list a = [] \<or> (\<exists>rg. shm_list a = [rg] \<and> region_size rg = round_up kHugepageSize ?init)"
    by simp_all
  from l have A: "regions_multiple kHugepageSize a"
    by (auto simp: regions_multiple_def round_up_multiple)
  have "regions_multiple kMaxClassSize a \<and> prev_allocation_size a mod kMaxClassSize = 0"
    if m: "?init mod kMaxClassSize = 0"
  proof -
    from m have "unat ?init mod unat kMaxClassSize = 0" by (simp add: word_mod_0_iff)
    then have "round_up kHugepageSize ?init = ?init" by (rule round_up_of_multiple)
    with l p m show ?thesis by (elim disjE exE conjE) (simp_all add: regions_multiple_def)
  qed
  with A show ?case by blast
next
  case (operated a opn w x a' w')
  from operated.IH have A: "regions_multiple kHugepageSize a" by simp
  have A': "regions_multiple kHugepageSize a'"
  proof (rule run_op_preserves [where P = "regions_multiple kHugepageSize", OF _ _ A operated.hyps(2)])
    fix sz b w x b' w'
    assume "regions_multiple kHugepageSize b" and "alloc sz b w = Some (x, b', w')"
    then show "regions_multiple kHugepageSize b'" by (rule alloc_regions_multiple_hugepage)
  next
    fix b c
    assume "regions_multiple kHugepageSize b"
    then show "regions_multiple kHugepageSize (free_buf c b)"
      by (simp add: regions_multiple_def free_buf_frame)
  qed
  have B': "regions_multiple kMaxClassSize a' \<and> prev_allocation_size a' mod kMaxClassSize = 0"
    if m: "max initial_size kMaxClassSize mod kMaxClassSize = 0"
  proof -
    from operated.IH m
    have B: "regions_multiple kMaxClassSize a \<and> prev_allocation_size a mod kMaxClassSize = 0" by simp
    show ?thesis
    proof (rule run_op_preserves
        [where P = "\<lambda>b. regions_multiple kMaxClassSize b \<and> prev_allocation_size b mod kMaxClassSize = 0",
          OF _ _ B operated.hyps(2)])
      fix sz b w x b' w'
      assume "regions_multiple kMaxClassSize b \<and> prev_allocation_size b mod kMaxClassSize = 0"
        and "alloc sz b w = Some (x, b', w')"
      then show "regions_multiple kMaxClassSize b' \<and> prev_allocation_size b' mod kMaxClassSize = 0"
        by (rule alloc_regions_multiple_class)
    next
      fix b c
      assume "regions_multiple kMaxClassSize b \<and> prev_allocation_size b mod kMaxClassSize = 0"
      then show "regions_multiple kMaxClassSize (free_buf c b)
               \<and> prev_allocation_size (free_buf c b) mod kMaxClassSize = 0"
        by (simp add: regions_multiple_def free_buf_frame)
    qed
  qed
  from A' B' show ?case by blast
qed

text \<open>
  Claim C5, as the code has it. At every reachable state the byte size of every region
  is a multiple of the hugepage size, to which \<^verbatim>\<open>alloc_raw\<close> rounds. It is a multiple
  of \<open>MAX_CLASS_SIZE\<close> when the first reservation size
  \<open>max(initial_size, MAX_CLASS_SIZE)\<close> is one: the later reservations double it.
\<close>

theorem C5_region_sizes_multiples:
  assumes "reachable initial_size a" and "r \<in> set (shm_list a)"
  shows "region_size r mod kHugepageSize = 0
       \<and> (max initial_size kMaxClassSize mod kMaxClassSize = 0 \<longrightarrow> region_size r mod kMaxClassSize = 0)"
  using reachable_regions_multiple [OF assms(1)] assms(2)
  by (auto simp: regions_multiple_def list_all_iff)

lemma reachable_alloc9: "reachable (MB 9) alloc9"
proof -
  have "\<exists>w'. HugeAlloc_ctor 8 (MB 9) 0 reg_ok dereg_nop (os_world [5] [Shmget_id 1]) = Some (Inr (), alloc9, w')"
    by (simp add: eval_defs alloc9_def region9_def)
  then show ?thesis by (auto intro: reachable.constructed)
qed

lemma reachable_alloc16: "reachable (MB 16) alloc16"
proof -
  have "\<exists>w'. HugeAlloc_ctor 8 (MB 16) 0 reg_ok dereg_nop (os_world [5] [Shmget_id 1]) = Some (Inr (), alloc16, w')"
    by (simp add: eval_defs alloc16_def region16_def)
  then show ?thesis by (auto intro: reachable.constructed)
qed

theorem C5_witness:
  "reachable (MB 16) alloc16 \<and> region16 \<in> set (shm_list alloc16)
   \<and> max (MB 16) kMaxClassSize mod kMaxClassSize = 0
   \<and> region_size region16 mod kHugepageSize = 0 \<and> region_size region16 mod kMaxClassSize = 0"
proof -
  have m: "region16 \<in> set (shm_list alloc16)" by (simp add: alloc16_def)
  have k: "max (MB 16) kMaxClassSize mod kMaxClassSize = 0" by (simp add: kMaxClassSize_def MB_def)
  from C5_region_sizes_multiples [OF reachable_alloc16 m] k reachable_alloc16 m
  show ?thesis by simp
qed

text \<open>
  The claim as stated fails for a configured initial size that is not a multiple of
  \<open>MAX_CLASS_SIZE\<close>: constructed with 9 MiB, the allocator holds one region of 10 MiB,
  and 10 MiB leaves 2 MiB when divided by 8 MiB.
\<close>

theorem C5_region_not_multiple_counterexample:
  "reachable (MB 9) alloc9 \<and> region9 \<in> set (shm_list alloc9)
   \<and> region_size region9 = 10485760 \<and> kMaxClassSize = 8388608
   \<and> region_size region9 mod kMaxClassSize = 2097152"
  using reachable_alloc9 by (simp add: alloc9_def region9_def kMaxClassSize_def MB_def)

subsection \<open>Buffers that \<^verbatim>\<open>create_cache\<close> leaves outstanding\<close>

lemma disjoint_bufs_sym: "disjoint_bufs b c \<Longrightarrow> disjoint_bufs c b"
  by (auto simp: disjoint_bufs_def)

lemma pw_disjoint_add:
  "pw_disjoint (add_mset x M) \<longleftrightarrow> pw_disjoint M \<and> (\<forall>c. c \<in># M \<longrightarrow> disjoint_bufs x c)"
  using disjoint_bufs_def pw_disjoint_def by auto

lemma free_mset_upd:
  assumes "j < kNumClasses"
  shows "free_mset (fl(j := xs)) + mset (fl j) = free_mset fl + mset xs"
proof -
  have f: "finite {..<kNumClasses}" and m: "j \<in> {..<kNumClasses}" using assms by simp_all
  have "free_mset (fl(j := xs)) = mset xs + (\<Sum>i\<in>{..<kNumClasses} - {j}. mset (fl i))"
    unfolding free_mset_def by (subst sum.remove [OF f m]) simp
  moreover have "free_mset fl = mset (fl j) + (\<Sum>i\<in>{..<kNumClasses} - {j}. mset (fl i))"
    unfolding free_mset_def by (subst sum.remove [OF f m]) simp
  ultimately show ?thesis by simp
qed


lemma unat_class_max_size:
  assumes "i < kNumClasses"
  shows "unat (class_max_size i) = 64 * 2 ^ i"
proof -
  from assms have "i \<le> 17" by (simp add: kNumClasses_def)
  then have "(2 :: nat) ^ i \<le> 2 ^ 17" by (rule power_increasing) simp
  then have "(64 :: nat) * 2 ^ i < 2 ^ 64" by simp
  then have "take_bit 64 ((64 :: nat) * 2 ^ i) = 64 * 2 ^ i"
    by (simp add: take_bit_nat_eq_self)
  moreover have "unat (push_bit i (64 :: size_t)) = take_bit 64 (push_bit i (unat (64 :: size_t)))"
    by (simp only: unsigned_push_bit_eq) simp
  moreover have "push_bit i (unat (64 :: size_t)) = 64 * 2 ^ i"
    by (simp add: push_bit_eq_mult)
  ultimately show ?thesis
    by (simp only: class_max_size_def kMinClassSize_def)
qed

lemma class_max_size_pos: "i < kNumClasses \<Longrightarrow> class_max_size i \<noteq> 0"
  using unat_class_max_size [of i] by (auto simp: unat_eq_0 [symmetric] simp del: unat_eq_0)

lemma unat_class_max_size_Suc:
  assumes "Suc i < kNumClasses"
  shows "unat (class_max_size (Suc i)) = 2 * unat (class_max_size i)"
  using assms by (simp add: unat_class_max_size)

lemma class_max_size_top: "class_max_size (kNumClasses - Suc 0) = kMaxClassSize"
  by (simp add: class_max_size_def kMinClassSize_def kNumClasses_def kMaxClassSize_def MB_def)


lemma free_mset_push:
  "j < kNumClasses \<Longrightarrow> free_mset (fl(j := fl j @ [s])) = add_mset s (free_mset fl)"
  using free_mset_upd [of j fl "fl j @ [s]"] by simp

lemma free_mset_pop:
  assumes "j < kNumClasses" and "fl j \<noteq> []"
  shows "free_mset fl = add_mset (last (fl j)) (free_mset (fl(j := butlast (fl j))))"
proof -
  from assms(2) have "mset (fl j) = add_mset (last (fl j)) (mset (butlast (fl j)))"
    by (metis append_butlast_last_id mset.simps(2) mset_append union_mset_add_mset_right add.right_neutral mset.simps(1))
  with free_mset_upd [OF assms(1), of fl "butlast (fl j)"] show ?thesis by simp
qed

lemma disjoint_inside:
  assumes "disjoint_bufs cand c" and "inside b (unat (buf cand)) (buf_end cand)"
  shows "disjoint_bufs b c"
  using assms by (auto simp: disjoint_bufs_def inside_def buf_end_def)

lemma split_down_spec:
  assumes "split_down target j cand fl = (cand', fl')"
    and "target \<le> j" and "j < kNumClasses"
    and "class_size cand = class_max_size j" and "buf_end cand \<le> 2 ^ 64"
    and "classes_ok fl" and "pw_disjoint (add_mset cand (free_mset fl + X))"
  shows "class_size cand' = class_max_size target \<and> buf cand' = buf cand \<and> lkey cand' = lkey cand
       \<and> classes_ok fl' \<and> pw_disjoint (add_mset cand' (free_mset fl' + X))
       \<and> (\<forall>b. b \<in># add_mset cand' (free_mset fl') \<longrightarrow>
              b \<in># free_mset fl \<or> inside b (unat (buf cand)) (buf_end cand))"
  using assms
proof (induction target j cand fl arbitrary: cand' fl' rule: split_down.induct)
  case (1 target j cand fl)
  show ?case
  proof (cases "target < j")
    case False
    with "1.prems" have e: "cand' = cand" "fl' = fl" "j = target"
      by (simp_all add: split_down.simps)
    from "1.prems"(3,4) have "class_size cand \<noteq> 0"
      by (simp add: class_max_size_pos)
    with e "1.prems" show ?thesis
      by (auto simp: inside_def)
  next
    case True
    define half where "half = class_max_size (j - 1)"
    define first where "first = \<lparr>buf = buf cand, class_size = half, lkey = lkey cand\<rparr>"
    define second where "second = \<lparr>buf = buf cand + half, class_size = half, lkey = lkey cand\<rparr>"
    define fl1 where "fl1 = fl(j - 1 := fl (j - 1) @ [second])"
    from True "1.prems"(3) have j1: "j - 1 < kNumClasses" "Suc (j - 1) = j" "target \<le> j - 1"
      by simp_all
    from "1.prems"(1) True have sd: "split_down target (j - 1) first fl1 = (cand', fl')"
      by (subst (asm) split_down.simps) (simp add: Let_def half_def first_def second_def fl1_def)
    have uh: "unat half = 64 * 2 ^ (j - 1)"
      unfolding half_def using j1(1) by (rule unat_class_max_size)
    have uc: "unat (class_size cand) = 2 * unat half"
      using unat_class_max_size_Suc [of "j - 1"] j1 "1.prems"(3,4) by (simp add: half_def)
    from uh have hpos: "0 < unat half" by simp
    from "1.prems"(5) uc have nw: "unat (buf cand) + 2 * unat half \<le> 2 ^ 64"
      by (simp add: buf_end_def)
    with hpos have "unat (buf cand) + unat half < 2 ^ 64" by simp
    then have us: "unat (buf cand + half) = unat (buf cand) + unat half"
      by (simp add: unat_add_lem [THEN iffD1])
    from hpos have hnz: "half \<noteq> 0" by (auto simp: unat_eq_0 [symmetric] simp del: unat_eq_0)
    have in1: "inside first (unat (buf cand)) (buf_end cand)"
      using uc hnz by (simp add: inside_def first_def buf_end_def)
    have in2: "inside second (unat (buf cand)) (buf_end cand)"
      using uc hnz us by (simp add: inside_def second_def buf_end_def)
    have d12: "disjoint_bufs first second"
      using us by (simp add: disjoint_bufs_def first_def second_def)
    from "1.prems"(7) have pwM: "pw_disjoint (free_mset fl + X)"
      and dc: "\<forall>c. c \<in># free_mset fl + X \<longrightarrow> disjoint_bufs cand c"
      by (simp_all add: pw_disjoint_add)
    have fm1: "free_mset fl1 = add_mset second (free_mset fl)"
      unfolding fl1_def using j1(1) by (rule free_mset_push)
    have pw1: "pw_disjoint (add_mset first (free_mset fl1 + X))"
      using pwM dc d12 in1 in2
      by (auto simp: fm1 pw_disjoint_add intro: disjoint_inside)
    have co1: "classes_ok fl1"
      using "1.prems"(6) j1(1)
      by (auto simp: classes_ok_def fl1_def second_def half_def)
    have cs1: "class_size first = class_max_size (j - 1)"
      by (simp add: first_def half_def)
    have be1: "buf_end first \<le> 2 ^ 64"
      using nw by (simp add: buf_end_def first_def)
    note ih = "1.IH" [OF True half_def first_def second_def sd [unfolded fl1_def] j1(3) j1(1) cs1 be1
        co1 [unfolded fl1_def] pw1 [unfolded fl1_def], folded fl1_def]
    from ih have r: "class_size cand' = class_max_size target" "buf cand' = buf first" "lkey cand' = lkey first"
      "classes_ok fl'" "pw_disjoint (add_mset cand' (free_mset fl' + X))"
      "\<forall>b. b \<in># add_mset cand' (free_mset fl') \<longrightarrow>
          b \<in># free_mset fl1 \<or> inside b (unat (buf first)) (buf_end first)"
      by simp_all
    have "b \<in># free_mset fl \<or> inside b (unat (buf cand)) (buf_end cand)"
      if b: "b \<in># add_mset cand' (free_mset fl')" for b
    proof -
      from r(6) b have "b \<in># free_mset fl1 \<or> inside b (unat (buf first)) (buf_end first)" by blast
      then show ?thesis
      proof
        assume "b \<in># free_mset fl1"
        with fm1 in2 show ?thesis by auto
      next
        assume "inside b (unat (buf first)) (buf_end first)"
        with uc show ?thesis
          by (auto simp: inside_def first_def buf_end_def)
      qed
    qed
    with r show ?thesis by (simp add: first_def)
  qed
qed


lemma classes_ok_butlast: "classes_ok fl \<Longrightarrow> classes_ok (fl(j := butlast (fl j)))"
  by (auto simp: classes_ok_def dest: in_set_butlastD)

lemma inside_trans:
  "inside b (unat (buf p)) (buf_end p) \<Longrightarrow> inside p lo hi \<Longrightarrow> inside b lo hi"
  by (auto simp: inside_def)

lemma buddy_alloc_wf:
  assumes ba: "buddy_alloc target a = Some (cand, a')"
    and wf: "buffers_wf (shm_list a) (freelist a) out"
    and rs: "list_all region_wf (shm_list a)"
  shows "buffers_wf (shm_list a') (freelist a') (add_mset cand out)
       \<and> buf cand \<noteq> 0 \<and> class_size cand = class_max_size target
       \<and> user_alloc_tot a' = user_alloc_tot a + class_max_size target"
proof -
  from ba obtain j where f: "List.find (\<lambda>j. freelist a j \<noteq> []) [target..<kNumClasses] = Some j"
    by (cases "List.find (\<lambda>j. freelist a j \<noteq> []) [target..<kNumClasses]") (auto simp: buddy_alloc_def)
  then have j: "target \<le> j" "j < kNumClasses" "freelist a j \<noteq> []"
    by (auto simp: find_Some_iff)
  define p where "p = last (freelist a j)"
  define fl1 where "fl1 = (freelist a)(j := butlast (freelist a j))"
  obtain c2 fl2 where sd: "split_down target j p fl1 = (c2, fl2)"
    by (cases "split_down target j p fl1")
  from ba f sd have res: "cand = c2"
      "a' = a\<lparr>freelist := fl2, user_alloc_tot := user_alloc_tot a + class_max_size target\<rparr>"
    by (simp_all add: buddy_alloc_def Let_def p_def fl1_def)
  from wf have co: "classes_ok (freelist a)"
    and pl: "\<forall>b. b \<in># free_mset (freelist a) + out \<longrightarrow> (\<exists>r\<in>set (shm_list a). within b r)"
    and pw: "pw_disjoint (free_mset (freelist a) + out)"
    by (simp_all add: buffers_wf_def)
  have fm: "free_mset (freelist a) = add_mset p (free_mset fl1)"
    unfolding p_def fl1_def using j(2,3) by (rule free_mset_pop)
  from j(3) have "p \<in> set (freelist a j)" by (simp add: p_def)
  with co j(2) have cs: "class_size p = class_max_size j" by (simp add: classes_ok_def)
  from fm pl obtain r where r: "r \<in> set (shm_list a)" "within p r" by auto
  from rs r(1) have rwf: "region_wf r" by (simp add: list_all_iff)
  with r(2) have be: "buf_end p \<le> 2 ^ 64" and pz: "0 < unat (buf p)"
    by (auto simp: within_def inside_def region_wf_def)
  from pw fm have pw1: "pw_disjoint (add_mset p (free_mset fl1 + out))" by simp
  have co1: "classes_ok fl1" unfolding fl1_def using co by (rule classes_ok_butlast)
  from split_down_spec [OF sd j(1,2) cs be co1 pw1]
  have s: "class_size c2 = class_max_size target" "buf c2 = buf p" "classes_ok fl2"
    "pw_disjoint (add_mset c2 (free_mset fl2 + out))"
    "\<forall>b. b \<in># add_mset c2 (free_mset fl2) \<longrightarrow>
       b \<in># free_mset fl1 \<or> inside b (unat (buf p)) (buf_end p)"
    by simp_all
  have "\<exists>r\<in>set (shm_list a). within b r" if b: "b \<in># free_mset fl2 + add_mset c2 out" for b
  proof (cases "b \<in># out")
    case True
    with pl show ?thesis by simp
  next
    case False
    with b have "b \<in># add_mset c2 (free_mset fl2)" by auto
    with s(5) have "b \<in># free_mset fl1 \<or> inside b (unat (buf p)) (buf_end p)" by blast
    then show ?thesis
    proof
      assume "b \<in># free_mset fl1"
      with fm pl show ?thesis by simp
    next
      assume "inside b (unat (buf p)) (buf_end p)"
      with r show ?thesis by (auto simp: within_def intro: inside_trans)
    qed
  qed
  moreover from s(4) have "pw_disjoint (free_mset fl2 + add_mset c2 out)" by simp
  moreover from pz s(2) have "buf c2 \<noteq> 0" by (auto simp: unat_gt_0)
  ultimately show ?thesis
    using s(1,3) res by (simp add: buffers_wf_def)
qed


lemma pw_disjoint_add_list:
  assumes "pw_disjoint M"
    and "\<forall>i<n. \<forall>c. c \<in># M \<longrightarrow> disjoint_bufs (f i) c"
    and "\<forall>i<n. \<forall>k<i. disjoint_bufs (f i) (f k)"
  shows "pw_disjoint (M + mset (map f [0..<n]))"
  using assms
proof (induction n)
  case 0
  then show ?case by simp
next
  case (Suc n)
  then have "pw_disjoint (M + mset (map f [0..<n]))" by simp
  moreover have "disjoint_bufs (f n) c" if "c \<in># M + mset (map f [0..<n])" for c
    using that Suc.prems(2,3) by auto
  ultimately show ?case by (simp add: pw_disjoint_add)
qed

lemma round_up_nonzero_ge:
  assumes "round_up kHugepageSize x \<noteq> 0"
  shows "unat x \<le> unat (round_up kHugepageSize x)"
proof (cases "unat x + unat kHugepageSize \<le> 2 ^ 64")
  case True
  then show ?thesis by (rule round_up_ge)
next
  case False
  then have ge: "2 ^ 64 \<le> unat x + 2097151" by (simp add: unat_kHuge)
  have "unat x < 2 ^ 64"
    using unsigned_less [of x, where 'a = nat] by simp
  with ge have "(unat x + 2097151) mod 2 ^ 64 = unat x + 2097151 - 2 ^ 64"
    by (simp add: mod_if)
  also from \<open>unat x < 2 ^ 64\<close> have "\<dots> < 2097152" by simp
  finally have "(unat x + 2097151) mod 2 ^ 64 div 2097152 = 0" by simp
  then have "unat (round_up kHugepageSize x) = 0" by (simp add: unat_round_up)
  with assms show ?thesis by (simp add: unat_eq_0)
qed

lemma seeded_buffer_range:
  assumes "unat p + n * 8388608 \<le> 2 ^ 64" and "i < n"
  shows "unat (p + of_nat i * kMaxClassSize) = unat p + i * 8388608"
proof -
  from assms have lt: "i * 8388608 < 2 ^ 64" and lt2: "unat p + i * 8388608 < 2 ^ 64"
    by (simp_all add: less_le_trans [of _ "unat p + n * 8388608"] add_less_le_mono)
  from lt have "i < 2 ^ 64" by simp
  then have "unat (of_nat i :: size_t) = i"
    by (simp add: unat_of_nat)
  then have "unat (of_nat i * kMaxClassSize) = (i * 8388608) mod 2 ^ 64"
    by (simp only: unat_word_ariths unat_kMax) simp
  with lt have "unat (of_nat i * kMaxClassSize) = i * 8388608"
    by simp
  with lt2 show ?thesis
    by (simp add: unat_add_lem [THEN iffD1])
qed


lemma regions_ok_snoc:
  "regions_ok (rs @ [rg]) \<longleftrightarrow> regions_ok rs \<and> region_wf rg \<and> (\<forall>r\<in>set rs. regions_apart r rg)"
  by (auto simp: regions_ok_def sorted_wrt_append)

lemma regions_ok_prefix: "regions_ok (rs @ new) \<Longrightarrow> regions_ok rs"
  by (auto simp: regions_ok_def sorted_wrt_append)

lemma apart_disjoint:
  assumes "regions_apart r rg" and "within c r" and "within b rg"
  shows "disjoint_bufs b c"
  using assms by (auto simp: regions_apart_def within_def inside_def disjoint_bufs_def buf_end_def)

lemma reserve_hugepages_wf:
  assumes rh: "reserve_hugepages sz numa a w = Some (Inr True, a', w')"
    and wf: "buffers_wf (shm_list a) (freelist a) out"
    and ok: "regions_ok (shm_list a')"
  shows "buffers_wf (shm_list a') (freelist a') out \<and> user_alloc_tot a' = user_alloc_tot a
       \<and> numa_node a' = numa_node a \<and> prev_allocation_size a' = prev_allocation_size a"
  using rh
proof (cases rule: reserve_hugepages_result)
  case unchanged
  then show ?thesis by simp
next
  case (reserved key p info)
  define rg where "rg = \<lparr>shm_key = key, region_buf = p, region_size = round_up kHugepageSize sz,
                          mem_reg_info = info\<rparr>"
  define n where "n = unat (sz div kMaxClassSize)"
  define B where "B = (\<lambda>i. \<lparr>buf = p + of_nat i * kMaxClassSize, class_size = kMaxClassSize,
                              lkey = reg_lkey info\<rparr>)"
  define fl' where "fl' = (freelist a)(kNumClasses - 1 := freelist a (kNumClasses - 1) @ map B [0..<n])"
  from reserved(5) have sl: "shm_list a' = shm_list a @ [rg]" and fl: "freelist a' = fl'"
    and rest: "user_alloc_tot a' = user_alloc_tot a" "numa_node a' = numa_node a"
      "prev_allocation_size a' = prev_allocation_size a"
    by (simp_all add: rg_def fl'_def B_def n_def)
  from ok sl have rwf: "region_wf rg" and ap: "\<forall>r\<in>set (shm_list a). regions_apart r rg"
    by (simp_all add: regions_ok_snoc)
  from wf have co: "classes_ok (freelist a)"
    and pl: "\<forall>b. b \<in># free_mset (freelist a) + out \<longrightarrow> (\<exists>r\<in>set (shm_list a). within b r)"
    and pw: "pw_disjoint (free_mset (freelist a) + out)"
    by (simp_all add: buffers_wf_def)
  from rwf have "round_up kHugepageSize sz \<noteq> 0" by (simp add: region_wf_def rg_def)
  then have "unat sz \<le> unat (region_size rg)"
    by (simp add: round_up_nonzero_ge rg_def)
  moreover have "n * 8388608 \<le> unat sz"
    using div_mult_le_unat [of sz] by (simp add: n_def unat_kMax)
  ultimately have nsz: "n * 8388608 \<le> unat (region_size rg)" by simp
  with rwf have nb: "unat p + n * 8388608 \<le> 2 ^ 64"
    by (simp add: region_wf_def rg_def)
  have bufB: "unat (buf (B i)) = unat p + i * 8388608" if "i < n" for i
    using seeded_buffer_range [OF nb that] by (simp add: B_def)
  have endB: "buf_end (B i) = unat p + Suc i * 8388608" if "i < n" for i
    using bufB [OF that] by (simp add: buf_end_def B_def unat_kMax)
  have inB: "within (B i) rg" if "i < n" for i
  proof -
    from that have "Suc i * 8388608 \<le> n * 8388608" by simp
    with nsz have "Suc i * 8388608 \<le> unat (region_size rg)" by simp
    with bufB [OF that] endB [OF that] show ?thesis
      by (simp add: within_def inside_def rg_def B_def kMaxClassSize_def MB_def)
  qed
  have k1: "kNumClasses - 1 < kNumClasses" by (simp add: kNumClasses_def)
  have fm: "free_mset fl' = free_mset (freelist a) + mset (map B [0..<n])"
    using free_mset_upd [OF k1, of "freelist a" "freelist a (kNumClasses - 1) @ map B [0..<n]"]
    by (simp add: fl'_def)
  have co': "classes_ok fl'"
    using co by (auto simp: classes_ok_def fl'_def B_def class_max_size_top)
  have pl': "\<exists>r\<in>set (shm_list a @ [rg]). within b r" if "b \<in># free_mset fl' + out" for b
  proof (cases "b \<in># free_mset (freelist a) + out")
    case True
    with pl show ?thesis by auto
  next
    case False
    with that fm obtain i where "i < n" "b = B i" by auto
    with inB show ?thesis by auto
  qed
  have dold: "disjoint_bufs (B i) c" if "i < n" and "c \<in># free_mset (freelist a) + out" for i c
  proof -
    from pl that(2) obtain r where "r \<in> set (shm_list a)" "within c r" by blast
    with ap inB [OF that(1)] show ?thesis by (auto intro: apart_disjoint)
  qed
  have dnew: "disjoint_bufs (B i) (B k)" if "i < n" and "k < i" for i k
  proof -
    from that have "k < n" by simp
    from that(2) have "Suc k * 8388608 \<le> i * 8388608" by simp
    with bufB [OF that(1)] endB [OF \<open>k < n\<close>] show ?thesis
      by (simp add: disjoint_bufs_def buf_end_def)
  qed
  have "pw_disjoint ((free_mset (freelist a) + out) + mset (map B [0..<n]))"
    using pw dold dnew by (intro pw_disjoint_add_list) auto
  then have pw': "pw_disjoint (free_mset fl' + out)"
    by (simp add: fm ac_simps)
  from co' pl' pw' sl fl rest show ?thesis
    by (simp add: buffers_wf_def)
qed


lemma alloc_wf:
  assumes al: "alloc sz a w = Some (x, a', w')"
    and wf: "buffers_wf (shm_list a) (freelist a) out"
    and ok: "regions_ok (shm_list a')"
  shows "(\<exists>b. x = Inr b \<and> buf b \<noteq> 0 \<and> class_size b = class_max_size (get_class sz)
            \<and> buffers_wf (shm_list a') (freelist a') (add_mset b out)
            \<and> user_alloc_tot a' = user_alloc_tot a + class_max_size (get_class sz))
       \<or> ((\<forall>b. x = Inr b \<longrightarrow> buf b = 0)
            \<and> buffers_wf (shm_list a') (freelist a') out
            \<and> user_alloc_tot a' = user_alloc_tot a)"
proof -
  from al have "\<exists>new. shm_list a' = shm_list a @ new"
    by (cases rule: alloc_regions) auto
  with ok have oka: "regions_ok (shm_list a)" by (auto dest: regions_ok_prefix)
  then have rwa: "list_all region_wf (shm_list a)" by (simp add: regions_ok_def)
  show ?thesis
  proof (cases "sz = 0 \<or> kMaxClassSize < sz")
    case True
    with al wf show ?thesis by (auto simp: alloc_def null_buffer_def)
  next
    case guard: False
    show ?thesis
    proof (cases "buddy_alloc (get_class sz) a")
      case (Some r)
      obtain b a1 where r: "r = (b, a1)" by (cases r)
      with al guard Some have e: "x = Inr b" "a' = a1" by (simp_all add: alloc_def)
      from buddy_alloc_wf [OF Some [unfolded r] wf rwa] e show ?thesis by simp
    next
      case None
      let ?new = "max (prev_allocation_size a * 2) sz"
      from al guard None obtain y a1 w1 where
        rh: "reserve_hugepages ?new (numa_node a) a w = Some (y, a1, w1)"
        by (cases "reserve_hugepages ?new (numa_node a) a w") (auto simp: alloc_def Let_def)
      show ?thesis
      proof (cases "y = Inr True")
        case False
        from rh False have "a1 = a"
          by (cases rule: reserve_hugepages_result) simp_all
        with al guard None rh False wf show ?thesis
          by (cases y) (auto simp: alloc_def Let_def null_buffer_def)
      next
        case True
        let ?a2 = "a1\<lparr>prev_allocation_size := ?new\<rparr>"
        have sl: "shm_list a' = shm_list a1"
        proof (cases "buddy_alloc (get_class sz) ?a2")
          case None
          with al guard \<open>buddy_alloc (get_class sz) a = None\<close> rh True show ?thesis
            by (auto simp: alloc_def Let_def)
        next
          case (Some r2)
          obtain b a3 where r2: "r2 = (b, a3)" by (cases r2)
          with al guard \<open>buddy_alloc (get_class sz) a = None\<close> rh True Some
          have "a' = a3" by (simp add: alloc_def Let_def)
          with buddy_alloc_frame [OF Some [unfolded r2]] show ?thesis by simp
        qed
        with ok have ok1: "regions_ok (shm_list a1)" by simp
        from reserve_hugepages_wf [OF rh [unfolded True] wf ok1]
        have wf1: "buffers_wf (shm_list a1) (freelist a1) out"
          and u1: "user_alloc_tot a1 = user_alloc_tot a" by simp_all
        then have wf2: "buffers_wf (shm_list ?a2) (freelist ?a2) out" by simp
        from ok1 have rw2: "list_all region_wf (shm_list ?a2)" by (simp add: regions_ok_def)
        show ?thesis
        proof (cases "buddy_alloc (get_class sz) ?a2")
          case None
          with al guard \<open>buddy_alloc (get_class sz) a = None\<close> rh True
          have "x = Inr null_buffer" "a' = ?a2" by (simp_all add: alloc_def Let_def)
          with wf1 u1 show ?thesis by (simp add: null_buffer_def)
        next
          case (Some r2)
          obtain b a3 where r2: "r2 = (b, a3)" by (cases r2)
          with al guard \<open>buddy_alloc (get_class sz) a = None\<close> rh True Some
          have e: "x = Inr b" "a' = a3" by (simp_all add: alloc_def Let_def)
          from buddy_alloc_wf [OF Some [unfolded r2] wf2 rw2] e u1 show ?thesis by simp
        qed
      qed
    qed
  qed
qed


lemma cache_alloc_loop_regions:
  assumes "cache_alloc_loop i n sz vec a w = Some (x, a', w')"
  shows "\<exists>new. shm_list a' = shm_list a @ new"
proof -
  have "grows_by a a []" by (simp add: grows_by_def)
  then have P: "\<exists>new. grows_by a a new" ..
  have "\<exists>new. grows_by a a' new"
  proof (rule cache_alloc_loop_preserves [where P = "\<lambda>b. \<exists>new. grows_by a b new", OF _ P assms])
    fix sz b w x b' w'
    assume "\<exists>new. grows_by a b new" and "alloc sz b w = Some (x, b', w')"
    then show "\<exists>new. grows_by a b' new" by (auto dest: alloc_grows_by)
  qed
  then show ?thesis by (auto simp: grows_by_def)
qed

lemma cache_alloc_loop_false:
  assumes "cache_alloc_loop i n sz vec a w = Some (Inr (False, vec'), a', w')"
    and "buffers_wf (shm_list a) (freelist a) (mset vec)"
    and "regions_ok (shm_list a')"
  shows "\<exists>new. vec' = vec @ new
            \<and> (\<forall>b\<in>set new. buf b \<noteq> 0 \<and> class_size b = class_max_size (get_class sz))
            \<and> buffers_wf (shm_list a') (freelist a') (mset vec')
            \<and> user_alloc_tot a' = user_alloc_tot a + of_nat (length new) * class_max_size (get_class sz)"
  using assms
proof (induction i n sz vec a w rule: cache_alloc_loop.induct)
  case (1 i n sz vec a w)
  show ?case
  proof (cases "i < n")
    case False
    with "1.prems"(1) show ?thesis by (simp add: cache_alloc_loop.simps)
  next
    case True
    show ?thesis
    proof (cases "alloc sz a w")
      case None
      with "1.prems"(1) True show ?thesis by (simp add: cache_alloc_loop.simps)
    next
      case (Some r)
      obtain y a1 w1 where r: "r = (y, a1, w1)" by (cases r)
      note al = Some [unfolded r]
      show ?thesis
      proof (cases y)
        case (Inl e)
        with "1.prems"(1) True al show ?thesis by (simp add: cache_alloc_loop.simps)
      next
        case (Inr buffer)
        show ?thesis
        proof (cases "buf buffer = 0")
          case z: True
          with "1.prems"(1) True al Inr have e: "vec' = vec" "a' = a1"
            by (simp_all add: cache_alloc_loop.simps)
          from alloc_wf [OF al "1.prems"(2)] "1.prems"(3) e Inr z show ?thesis by auto
        next
          case nz: False
          from "1.prems"(1) True al Inr nz
          have rec: "cache_alloc_loop (Suc i) n sz (vec @ [buffer]) a1 w1 = Some (Inr (False, vec'), a', w')"
            by (simp add: cache_alloc_loop.simps)
          from cache_alloc_loop_regions [OF rec] "1.prems"(3) have ok1: "regions_ok (shm_list a1)"
            by (auto dest: regions_ok_prefix)
          from alloc_wf [OF al "1.prems"(2) ok1] Inr nz
          have wf1: "buffers_wf (shm_list a1) (freelist a1) (mset (vec @ [buffer]))"
            and u1: "user_alloc_tot a1 = user_alloc_tot a + class_max_size (get_class sz)"
            and cs: "class_size buffer = class_max_size (get_class sz)"
            by auto
          from "1.IH" [OF True al refl Inr refl nz rec wf1 "1.prems"(3)] obtain new where
            n: "vec' = (vec @ [buffer]) @ new"
              "\<forall>b\<in>set new. buf b \<noteq> 0 \<and> class_size b = class_max_size (get_class sz)"
              "buffers_wf (shm_list a') (freelist a') (mset vec')"
              "user_alloc_tot a' = user_alloc_tot a1 + of_nat (length new) * class_max_size (get_class sz)"
            by blast
          show ?thesis
          proof (intro exI [of _ "buffer # new"] conjI)
            from n(1) show "vec' = vec @ buffer # new" by simp
            from n(2) nz cs
            show "\<forall>b\<in>set (buffer # new). buf b \<noteq> 0 \<and> class_size b = class_max_size (get_class sz)"
              by simp
            from n(3) show "buffers_wf (shm_list a') (freelist a') (mset vec')" .
            from n(4) u1
            show "user_alloc_tot a' =
                    user_alloc_tot a + of_nat (length (buffer # new)) * class_max_size (get_class sz)"
              by (simp add: algebra_simps)
          qed
        qed
      qed
    qed
  qed
qed

lemma in_free_mset: "i < kNumClasses \<Longrightarrow> b \<in> set (fl i) \<Longrightarrow> b \<in># free_mset fl"
  using free_mset_upd [of i fl "[]"] by (metis add.right_neutral mset.simps(1) set_mset_mset union_iff)

lemma outstanding_not_free:
  assumes "buffers_wf rs fl (mset vec)" and "b \<in> set vec" and "i < kNumClasses"
  shows "b \<notin> set (fl i)"
proof
  assume "b \<in> set (fl i)"
  with assms(3) have "b \<in># free_mset fl" by (rule in_free_mset)
  then obtain M where "free_mset fl = add_mset b M" by (auto dest: multi_member_split)
  with assms(2) have "b \<in># (free_mset fl + mset vec) - {#b#}" by simp
  moreover from assms(2) have "b \<in># free_mset fl + mset vec" by simp
  ultimately have "disjoint_bufs b b"
    using assms(1) by (auto simp: buffers_wf_def pw_disjoint_def)
  moreover from assms(1,2) have "class_size b \<noteq> 0"
    by (auto simp: buffers_wf_def within_def inside_def)
  ultimately show False
    by (auto simp: disjoint_bufs_def unat_eq_0)
qed

text \<open>
  Claim C9. Let the free-lists be well-formed, and let the regions at the end be proper
  regions, apart from each other. If \<^verbatim>\<open>create_cache(size, n)\<close> returns \<^verbatim>\<open>false\<close>,
  then the state it leaves is the state in which its allocation loop stopped, with the
  buffers \<open>vec\<close> allocated before the failing allocation: no \<^verbatim>\<open>free_buf\<close> was
  applied. \<open>user_alloc_tot\<close> has grown by the class size for each buffer of \<open>vec\<close>,
  and every buffer of \<open>vec\<close> is non-null, has the size of the class and is on no
  free-list.
\<close>

theorem C9_create_cache_failure_leaves_buffers_outstanding:
  assumes "create_cache sz n a w = Some (Inr False, a', w')"
    and "buffers_wf (shm_list a) (freelist a) {#}"
    and "regions_ok (shm_list a')"
  shows "\<exists>vec. cache_alloc_loop 0 (unat (n - of_nat (length (freelist a (get_class sz))))) sz [] a w
               = Some (Inr (False, vec), a', w')
            \<and> user_alloc_tot a' = user_alloc_tot a + of_nat (length vec) * class_max_size (get_class sz)
            \<and> (\<forall>b\<in>set vec. buf b \<noteq> 0 \<and> class_size b = class_max_size (get_class sz)
                  \<and> (\<forall>i<kNumClasses. b \<notin> set (freelist a' i)))"
proof -
  let ?d = "unat (n - of_nat (length (freelist a (get_class sz))))"
  from assms(1) have nz: "\<not> n - of_nat (length (freelist a (get_class sz))) \<le> 0"
    by (auto simp: create_cache_def Let_def)
  with assms(1) obtain y a1 w1 where l: "cache_alloc_loop 0 ?d sz [] a w = Some (y, a1, w1)"
    by (cases "cache_alloc_loop 0 ?d sz [] a w") (auto simp: create_cache_def Let_def)
  from assms(1) nz l obtain vec where y: "y = Inr (False, vec)" and e: "a1 = a'" "w1 = w'"
    by (cases y) (auto simp: create_cache_def Let_def split: if_splits)
  note l' = l [unfolded y e]
  from cache_alloc_loop_false [OF l' _ assms(3)] assms(2) obtain new where
    n: "vec = [] @ new"
      "\<forall>b\<in>set new. buf b \<noteq> 0 \<and> class_size b = class_max_size (get_class sz)"
      "buffers_wf (shm_list a') (freelist a') (mset vec)"
      "user_alloc_tot a' = user_alloc_tot a + of_nat (length new) * class_max_size (get_class sz)"
    by auto
  show ?thesis
  proof (intro exI [of _ vec] conjI ballI allI impI)
    show "cache_alloc_loop 0 ?d sz [] a w = Some (Inr (False, vec), a', w')" by (rule l')
    from n(1,4)
    show "user_alloc_tot a' = user_alloc_tot a + of_nat (length vec) * class_max_size (get_class sz)"
      by simp
  next
    fix b assume "b \<in> set vec"
    with n(1,2) show "buf b \<noteq> 0" by simp
  next
    fix b assume "b \<in> set vec"
    with n(1,2) show "class_size b = class_max_size (get_class sz)" by simp
  next
    fix b i assume "b \<in> set vec" and "i < kNumClasses"
    with n(3) show "b \<notin> set (freelist a' i)" by (rule outstanding_not_free)
  qed
qed

lemma free_mset_empty: "free_mset (\<lambda>_. []) = {#}"
  by (simp add: free_mset_def)

lemma buffers_wf_empty: "buffers_wf rs (\<lambda>_. []) {#}"
  by (simp add: buffers_wf_def classes_ok_def free_mset_empty pw_disjoint_def)

lemma regions_ok_region16: "regions_ok [region16]"
  by (simp add: regions_ok_def region_wf_def region16_def)

lemma buffers_wf_alloc16: "buffers_wf (shm_list alloc16) (freelist alloc16) {#}"
proof -
  let ?a = "(new_HugeAlloc 0 reg_ok dereg_nop)\<lparr>prev_allocation_size := 16777216\<rparr>"
  have "\<exists>w'. reserve_hugepages 16777216 0 ?a (os_world [5] [Shmget_id 1]) = Some (Inr True, alloc16, w')"
    by (simp add: eval_defs alloc16_def region16_def)
  then obtain w' where
    rh: "reserve_hugepages 16777216 0 ?a (os_world [5] [Shmget_id 1]) = Some (Inr True, alloc16, w')" ..
  have wf0: "buffers_wf (shm_list ?a) (freelist ?a) {#}"
    by (simp add: new_HugeAlloc_def buffers_wf_empty)
  have ok: "regions_ok (shm_list alloc16)"
    by (simp add: alloc16_def regions_ok_region16)
  from reserve_hugepages_wf [OF rh wf0 ok] show ?thesis by simp
qed

theorem C9_witness:
  "\<exists>a' w'. create_cache (MB 8) 5 alloc16 (os_world [6] [Shmget_fail ENOMEM]) = Some (Inr False, a', w')
      \<and> buffers_wf (shm_list alloc16) (freelist alloc16) {#}
      \<and> regions_ok (shm_list a')
      \<and> user_alloc_tot alloc16 = 0 \<and> user_alloc_tot a' = 16777216
      \<and> map (freelist a') [0..<kNumClasses] = [[], [], [], [], [], [], [], [], [], [], [], [], [], [], [], [], [], []]
      \<and> (\<exists>vec. cache_alloc_loop 0 (unat (5 - of_nat (length (freelist alloc16 (get_class (MB 8))))
                                        :: size_t)) (MB 8) [] alloc16
                   (os_world [6] [Shmget_fail ENOMEM]) = Some (Inr (False, vec), a', w')
               \<and> user_alloc_tot a' =
                   user_alloc_tot alloc16 + of_nat (length vec) * class_max_size (get_class (MB 8))
               \<and> (\<forall>b\<in>set vec. buf b \<noteq> 0 \<and> class_size b = class_max_size (get_class (MB 8))
                     \<and> (\<forall>i<kNumClasses. b \<notin> set (freelist a' i))))"
proof -
  let ?w = "os_world [6] [Shmget_fail ENOMEM]"
  have "\<exists>a' w'. create_cache (MB 8) 5 alloc16 ?w = Some (Inr False, a', w')
          \<and> shm_list a' = [region16] \<and> user_alloc_tot a' = 16777216
          \<and> map (freelist a') [0..<kNumClasses] = [[], [], [], [], [], [], [], [], [], [], [], [], [], [], [], [], [], []]"
    by (simp add: alloc16_def region16_def eval_defs create_cache_def get_class_def
        cache_alloc_loop.simps alloc_def buddy_alloc_def split_down.simps class_max_size_def
        kMinClassSize_def null_buffer_def)
  then obtain a' w' where
    cc: "create_cache (MB 8) 5 alloc16 ?w = Some (Inr False, a', w')"
    and sl: "shm_list a' = [region16]" and u: "user_alloc_tot a' = 16777216"
    and fl: "map (freelist a') [0..<kNumClasses] = [[], [], [], [], [], [], [], [], [], [], [], [], [], [], [], [], [], []]"
    by (elim exE conjE)
  from sl have ok: "regions_ok (shm_list a')" by (simp add: regions_ok_region16)
  have u0: "user_alloc_tot alloc16 = 0" by (simp add: alloc16_def)
  note c = C9_create_cache_failure_leaves_buffers_outstanding [OF cc buffers_wf_alloc16 ok]
  show ?thesis
    by (rule exI [of _ a'], rule exI [of _ w']) (use cc buffers_wf_alloc16 ok u0 u fl c in simp)
qed

end
